theory Spec2Isabelle
  imports Complex_Main "HOL-Library.Word" "HOL-Library.Log_Nat"
begin

section \<open>Numbers\<close>

text \<open>
  JavaScript numbers are binary64 values. The functions only ever compute with
  non-negative integers (offsets and lengths), so a number that takes part in
  arithmetic is a \<open>nat\<close>, and every sum is rounded the way binary64 rounds it:
  integers up to \<open>2^53\<close> are exact, beyond that the nearest representable value is
  taken, ties to the even significand. Differences are only taken where the source has
  already compared the operands (\<open>buffer.length - offset\<close> under
  \<open>offset < buffer.length\<close>) or where the loop invariant \<open>carryLength < chunkSize\<close>
  holds (\<open>chunkSize - carryLength\<close>, invariant \<open>carry_ok\<close>), so the truncating
  subtraction of \<open>nat\<close> never truncates on a reachable state.
\<close>

definition MAX_SAFE_INTEGER :: nat where
  "MAX_SAFE_INTEGER = 2 ^ 53 - 1"

definition to_double :: "nat \<Rightarrow> nat" where
  "to_double n =
     (if n \<le> 2 ^ 53 then n
      else let s = 2 ^ (floorlog 2 n - 53); q = n div s; r = n mod s
           in if 2 * r < s \<or> (2 * r = s \<and> even q) then q * s else (q + 1) * s)"

definition js_add :: "nat \<Rightarrow> nat \<Rightarrow> nat" where
  "js_add a b = to_double (a + b)"

datatype jsnum = NaN | PosInfinity | NegInfinity | Finite rat

section \<open>Binary views over array buffers\<close>

text \<open>
  An ArrayBuffer is a list of bytes, the heap is the list of all array buffers (an
  address is an index into it), and an ArrayBufferView is a window
  \<open>(buffer, byteOffset, byteLength)\<close> on one of them. A \<open>Uint8Array\<close> has
  \<open>length = byteLength\<close>.
\<close>

type_synonym byte = "8 word"
type_synonym heap = "byte list list"

record view =
  arrayBuffer :: nat
  byteOffset :: nat
  byteLength :: nat

definition valid_view :: "heap \<Rightarrow> view \<Rightarrow> bool" where
  "valid_view h v \<longleftrightarrow>
     arrayBuffer v < length h \<and> byteOffset v + byteLength v \<le> length (h ! arrayBuffer v)
     \<and> byteLength v \<le> MAX_SAFE_INTEGER"

definition read :: "heap \<Rightarrow> view \<Rightarrow> byte list" where
  "read h v = take (byteLength v) (drop (byteOffset v) (h ! arrayBuffer v))"

text \<open>\<open>v[i]\<close>: \<open>undefined\<close> (here \<open>None\<close>) outside the view.\<close>

definition read_byte :: "heap \<Rightarrow> view \<Rightarrow> nat \<Rightarrow> byte option" where
  "read_byte h v i =
     (if i < byteLength v then Some (h ! arrayBuffer v ! (byteOffset v + i)) else None)"

text \<open>\<open>v[i] = b\<close>: ignored outside the view.\<close>

definition write_byte :: "heap \<Rightarrow> view \<Rightarrow> nat \<Rightarrow> byte \<Rightarrow> heap" where
  "write_byte h v i b =
     (if i < byteLength v then h[arrayBuffer v := (h ! arrayBuffer v)[byteOffset v + i := b]] else h)"

text \<open>
  \<open>v.subarray(begin, end)\<close> for non-negative arguments: both are clamped to the
  length, an empty view results when \<open>end\<close> is not beyond \<open>begin\<close>. No byte is copied.
\<close>

definition subarray :: "view \<Rightarrow> nat \<Rightarrow> nat \<Rightarrow> view" where
  "subarray v begin end =
     (let b = min begin (byteLength v); e = min end (byteLength v)
      in \<lparr>arrayBuffer = arrayBuffer v, byteOffset = byteOffset v + b, byteLength = e - b\<rparr>)"

datatype error = TypeError string | RangeError string

text \<open>
  Whether a request for a new buffer is granted is up to the runtime: \<open>mem h n\<close> says
  that \<open>n\<close> more bytes can be had when the heap is \<open>h\<close>. Every allocation makes the
  heap longer, so any sequence of outcomes during one run is that of some allocator.
  \<open>limited m\<close> is the runtime whose buffers hold at most \<open>m\<close> bytes, \<open>unbounded\<close>
  the one that never refuses.
\<close>

type_synonym allocator = "heap \<Rightarrow> nat \<Rightarrow> bool"

definition limited :: "nat \<Rightarrow> allocator" where
  "limited m h n \<longleftrightarrow> n \<le> m"

definition unbounded :: allocator where
  "unbounded h n \<longleftrightarrow> True"

text \<open>
  \<open>new Uint8Array(n)\<close>: a fresh, zero-filled buffer and the view of all of it, or the
  \<open>RangeError\<close> of the runtime when the bytes cannot be allocated (its message is the
  runtime's own; the wording of V8 stands for it).
\<close>

definition allocation_failed :: error where
  "allocation_failed = RangeError ''Array buffer allocation failed''"

definition new_Uint8Array :: "allocator \<Rightarrow> nat \<Rightarrow> heap \<Rightarrow> error + view \<times> heap" where
  "new_Uint8Array mem n h =
     (if mem h n
      then Inr (\<lparr>arrayBuffer = length h, byteOffset = 0, byteLength = n\<rparr>, h @ [replicate n 0])
      else Inl allocation_failed)"

section \<open>Values and argument checks\<close>

text \<open>
  The values the three functions can tell apart. \<open>TypedArray w v\<close> is a typed array with
  elements of \<open>w\<close> bytes over the byte span \<open>v\<close>; \<open>Array\<close> stands for any object
  that has only \<open>Symbol.iterator\<close> (an array, a generator object), \<open>AsyncIterable\<close> for
  any object that has only \<open>Symbol.asyncIterator\<close> (a stream, an async generator
  object), both given by the items they produce; \<open>Dual xs ys\<close> is an object that has
  both methods, \<open>Symbol.iterator\<close> producing \<open>xs\<close> and \<open>Symbol.asyncIterator\<close>
  producing \<open>ys\<close>; \<open>PlainObject\<close> has neither;
  \<open>Promise x\<close> is a promise fulfilled with \<open>x\<close>; \<open>Primitive\<close> is any other primitive
  (a boolean, a bigint, a symbol, an element read from a typed array).
\<close>

datatype js_value =
    Undefined
  | Null
  | Primitive
  | Number jsnum
  | String string
  | TypedArray nat view
  | DataView view
  | Array "js_value list"
  | AsyncIterable "js_value list"
  | Dual "js_value list" "js_value list"
  | PlainObject
  | Promise js_value

fun isView :: "js_value \<Rightarrow> bool" where
  "isView (TypedArray w v) = True"
| "isView (DataView v) = True"
| "isView _ = False"

text \<open>
  \<open>toUint8Array\<close> (lines 1-3) is only called after \<open>ArrayBuffer.isView\<close> has
  succeeded; a \<open>Uint8Array\<close> is returned as it is, any other view is re-wrapped over
  the same bytes. Either way the result is the byte span of the view.
\<close>

fun toUint8Array :: "js_value \<Rightarrow> view" where
  "toUint8Array (TypedArray w v) = v"
| "toUint8Array (DataView v) = v"
| "toUint8Array _ = \<lparr>arrayBuffer = 0, byteOffset = 0, byteLength = 0\<rparr>"

fun isSafeInteger :: "js_value \<Rightarrow> bool" where
  "isSafeInteger (Number (Finite q)) \<longleftrightarrow>
     of_int \<lfloor>q\<rfloor> = q \<and> \<bar>q\<bar> \<le> 2 ^ 53 - 1"
| "isSafeInteger _ \<longleftrightarrow> False"

text \<open>\<open>chunkSize <= 0\<close>, evaluated only on a safe integer (the \<open>||\<close> short-circuits).\<close>

fun le_zero :: "js_value \<Rightarrow> bool" where
  "le_zero (Number (Finite q)) \<longleftrightarrow> q \<le> 0"
| "le_zero _ \<longleftrightarrow> False"

definition bad_chunkSize :: "js_value \<Rightarrow> bool" where
  "bad_chunkSize chunkSize \<longleftrightarrow> \<not> isSafeInteger chunkSize \<or> le_zero chunkSize"

fun size_of :: "js_value \<Rightarrow> nat" where
  "size_of (Number (Finite q)) = nat \<lfloor>q\<rfloor>"
| "size_of _ = 0"

section \<open>chunk (lines 5-19)\<close>

text \<open>
  A generator run to its end is the list of what it yielded and the error it threw, if
  any. A loop of the source is a recursive function in the \<open>option\<close> monad: \<open>None\<close>
  is a loop that never ends.
\<close>

partial_function (option) chunk_loop ::
  "view \<Rightarrow> nat \<Rightarrow> nat \<Rightarrow> view list \<Rightarrow> view list option" where
  "chunk_loop uint8Array chunkSize offset yielded =
     (if offset < byteLength uint8Array
      then chunk_loop uint8Array chunkSize (js_add offset chunkSize)
             (yielded @ [subarray uint8Array offset (js_add offset chunkSize)])
      else Some yielded)"

declare chunk_loop.simps [code]

definition chunk :: "js_value \<Rightarrow> js_value \<Rightarrow> (view list \<times> error option) option" where
  "chunk data chunkSize =
     (if \<not> isView data then Some ([], Some (TypeError ''Expected data to be ArrayBufferView''))
      else if bad_chunkSize chunkSize
      then Some ([], Some (TypeError ''Expected chunkSize to be a positive integer''))
      else map_option (\<lambda>ys. (ys, None))
             (chunk_loop (toUint8Array data) (size_of chunkSize) 0 []))"

section \<open>chunkFrom (lines 21-85)\<close>

text \<open>
  A run is made on a runtime, given by its allocator \<open>mem\<close>, and from a heap \<open>h\<close>.
  The state of a running generator: the heap, the two local variables that live across
  loop iterations, the error that ended it (if any), and the record of what it did, in
  order: \<open>Copy source target offset\<close> for every \<open>target.set(source, offset)\<close>,
  \<open>Yield v bs\<close> for every \<open>yield v\<close>, with the bytes \<open>bs\<close> that the consumer
  reads from \<open>v\<close> at that moment.
\<close>

datatype event = Copy view view nat | Yield view "byte list"

record gen =
  heap :: heap
  carryBuffer :: "view option"
  carryLength :: nat
  trace :: "event list"
  thrown :: "error option"

definition start :: "heap \<Rightarrow> gen" where
  "start h = \<lparr>heap = h, carryBuffer = None, carryLength = 0, trace = [], thrown = None\<rparr>"

definition throw :: "error \<Rightarrow> gen \<Rightarrow> gen" where
  "throw e g = g\<lparr>thrown := Some e\<rparr>"

definition yield :: "view \<Rightarrow> gen \<Rightarrow> gen" where
  "yield v g = g\<lparr>trace := trace g @ [Yield v (read (heap g) v)]\<rparr>"

text \<open>
  \<open>target.set(source, offset)\<close>: a \<open>TypeError\<close> when \<open>target\<close> is \<open>undefined\<close>, a
  \<open>RangeError\<close> when the source does not fit, otherwise the bytes of the source are
  copied into the target's buffer.
\<close>

definition typed_set :: "view option \<Rightarrow> view \<Rightarrow> nat \<Rightarrow> gen \<Rightarrow> gen" where
  "typed_set target source offset g =
     (case target of
        None \<Rightarrow> throw (TypeError ''Cannot read properties of undefined'') g
      | Some t \<Rightarrow>
          if byteLength t < offset + byteLength source
          then throw (RangeError ''offset is out of bounds'') g
          else let pos = byteOffset t + offset; old = heap g ! arrayBuffer t
               in g\<lparr>heap := (heap g)[arrayBuffer t := take pos old @ read (heap g) source
                                  @ drop (pos + byteLength source) old],
                    trace := trace g @ [Copy source t offset]\<rparr>)"

text \<open>
  Lines 52-57: complete the pending chunk from the carry and the head of the buffer. The
  run ends here when the buffer for the merged chunk cannot be allocated.
\<close>

definition complete :: "allocator \<Rightarrow> nat \<Rightarrow> view \<Rightarrow> nat \<Rightarrow> gen \<Rightarrow> gen" where
  "complete mem chunkSize buffer needed g =
     (case new_Uint8Array mem chunkSize (heap g) of
        Inl e \<Rightarrow> throw e g
      | Inr (out, h) \<Rightarrow>
          let g1 = g\<lparr>heap := h\<rparr>
          in case carryBuffer g1 of
               None \<Rightarrow> throw (TypeError ''Cannot read properties of undefined'') g1
             | Some cb \<Rightarrow>
                 let g2 = typed_set (Some out) (subarray cb 0 (carryLength g1)) 0 g1
                 in if thrown g2 \<noteq> None then g2
                    else let g3 = typed_set (Some out) (subarray buffer 0 needed) (carryLength g2) g2
                         in if thrown g3 \<noteq> None then g3
                            else (yield out g3)\<lparr>carryLength := 0\<rparr>)"

text \<open>Lines 61-62: append the whole buffer to the carry.\<close>

definition accumulate :: "view \<Rightarrow> gen \<Rightarrow> gen" where
  "accumulate buffer g =
     (let g1 = typed_set (carryBuffer g) buffer (carryLength g) g
      in if thrown g1 \<noteq> None then g1
         else g1\<lparr>carryLength := js_add (carryLength g1) (byteLength buffer)\<rparr>)"

text \<open>Lines 68-70: the direct slices. The result is the final \<open>offset\<close> and the state.\<close>

partial_function (option) slices ::
  "nat \<Rightarrow> view \<Rightarrow> nat \<Rightarrow> gen \<Rightarrow> (nat \<times> gen) option" where
  "slices chunkSize buffer offset g =
     (if js_add offset chunkSize \<le> byteLength buffer
      then slices chunkSize buffer (js_add offset chunkSize)
             (yield (subarray buffer offset (js_add offset chunkSize)) g)
      else Some (offset, g))"

declare slices.simps [code]

text \<open>
  Lines 73-79: keep what is left of the buffer in the carry. The carry buffer is allocated
  the first time it is needed; the run ends here when it cannot be.
\<close>

definition save_remainder :: "allocator \<Rightarrow> nat \<Rightarrow> view \<Rightarrow> nat \<Rightarrow> gen \<Rightarrow> gen" where
  "save_remainder mem chunkSize buffer offset g =
     (if offset < byteLength buffer
      then let g1 = (case carryBuffer g of
                       None \<Rightarrow> (case new_Uint8Array mem chunkSize (heap g) of
                                  Inl e \<Rightarrow> throw e g
                                | Inr (cb, h) \<Rightarrow> g\<lparr>heap := h, carryBuffer := Some cb\<rparr>)
                     | Some cb \<Rightarrow> g)
           in if thrown g1 \<noteq> None then g1
              else let remainder = byteLength buffer - offset;
                       g2 = typed_set (carryBuffer g1) (subarray buffer offset (byteLength buffer)) 0 g1
                   in if thrown g2 \<noteq> None then g2 else g2\<lparr>carryLength := remainder\<rparr>
      else g)"

definition direct :: "allocator \<Rightarrow> nat \<Rightarrow> view \<Rightarrow> nat \<Rightarrow> gen \<Rightarrow> gen option" where
  "direct mem chunkSize buffer offset g =
     map_option (\<lambda>(offset', g'). save_remainder mem chunkSize buffer offset' g')
       (slices chunkSize buffer offset g)"

text \<open>Lines 34-79: the body of the \<open>for\<close> loop, for one item of the iterable.\<close>

definition body :: "allocator \<Rightarrow> nat \<Rightarrow> js_value \<Rightarrow> gen \<Rightarrow> gen option" where
  "body mem chunkSize part g =
     (if \<not> isView part
      then Some (throw (TypeError ''Expected iterable chunks to be Uint8Array or ArrayBufferView'') g)
      else let buffer = toUint8Array part
           in if byteLength buffer = 0 then Some g
              else if carryLength g > 0
              then let needed = chunkSize - carryLength g
                   in if byteLength buffer \<ge> needed
                      then let g1 = complete mem chunkSize buffer needed g
                           in if thrown g1 \<noteq> None then Some g1
                              else direct mem chunkSize buffer needed g1
                      else Some (accumulate buffer g)
              else direct mem chunkSize buffer 0 g)"

text \<open>The \<open>for\<close> loop over the items; it ends at the first error.\<close>

fun for_of :: "allocator \<Rightarrow> nat \<Rightarrow> js_value list \<Rightarrow> gen \<Rightarrow> gen option" where
  "for_of mem chunkSize [] g = Some g"
| "for_of mem chunkSize (part # rest) g =
     (case body mem chunkSize part g of
        None \<Rightarrow> None
      | Some g' \<Rightarrow> if thrown g' \<noteq> None then Some g' else for_of mem chunkSize rest g')"

text \<open>Lines 82-84: the last, short chunk is a view of the carry buffer.\<close>

definition flush :: "gen \<Rightarrow> gen" where
  "flush g =
     (if thrown g \<noteq> None then g
      else if carryLength g > 0
      then (case carryBuffer g of
              None \<Rightarrow> throw (TypeError ''Cannot read properties of undefined'') g
            | Some cb \<Rightarrow> yield (subarray cb 0 (carryLength g)) g)
      else g)"

text \<open>
  What \<open>iterable[Symbol.iterator]\<close> produces when it is a function: the items of an
  array, the elements of a typed array, the characters of a string (each a string).
  The heap is not needed: the elements of a typed array are primitives whatever the
  bytes are.
\<close>

fun iterator :: "js_value \<Rightarrow> js_value list option" where
  "iterator (Array items) = Some items"
| "iterator (String s) = Some (map (\<lambda>c. String [c]) s)"
| "iterator (TypedArray w v) = Some (replicate (byteLength v div w) Primitive)"
| "iterator (Dual xs ys) = Some xs"
| "iterator _ = None"

fun is_string :: "js_value \<Rightarrow> bool" where
  "is_string (String s) = True"
| "is_string _ = False"

definition chunkFrom :: "allocator \<Rightarrow> heap \<Rightarrow> js_value \<Rightarrow> js_value \<Rightarrow> gen option" where
  "chunkFrom mem h iterable chunkSize =
     (if iterator iterable = None \<or> is_string iterable
      then Some (throw (TypeError ''Expected iterable to be an Iterable<ArrayBufferView>'') (start h))
      else if bad_chunkSize chunkSize
      then Some (throw (TypeError ''Expected chunkSize to be a positive integer'') (start h))
      else map_option flush
             (for_of mem (size_of chunkSize) (the (iterator iterable)) (start h)))"

section \<open>chunkFromAsync (lines 87-151)\<close>

text \<open>
  The source repeats the body of \<open>chunkFrom\<close> inside an \<open>async function *\<close>; it is
  transcribed again here, block by block. A suspension (at \<open>for await\<close> and at
  \<open>yield\<close>) changes nothing in the state, so the run is again the state at the end.
\<close>

definition completeAsync :: "allocator \<Rightarrow> nat \<Rightarrow> view \<Rightarrow> nat \<Rightarrow> gen \<Rightarrow> gen" where
  "completeAsync mem chunkSize buffer needed g =
     (case new_Uint8Array mem chunkSize (heap g) of
        Inl e \<Rightarrow> throw e g
      | Inr (out, h) \<Rightarrow>
          let g1 = g\<lparr>heap := h\<rparr>
          in case carryBuffer g1 of
               None \<Rightarrow> throw (TypeError ''Cannot read properties of undefined'') g1
             | Some cb \<Rightarrow>
                 let g2 = typed_set (Some out) (subarray cb 0 (carryLength g1)) 0 g1
                 in if thrown g2 \<noteq> None then g2
                    else let g3 = typed_set (Some out) (subarray buffer 0 needed) (carryLength g2) g2
                         in if thrown g3 \<noteq> None then g3
                            else (yield out g3)\<lparr>carryLength := 0\<rparr>)"

definition accumulateAsync :: "view \<Rightarrow> gen \<Rightarrow> gen" where
  "accumulateAsync buffer g =
     (let g1 = typed_set (carryBuffer g) buffer (carryLength g) g
      in if thrown g1 \<noteq> None then g1
         else g1\<lparr>carryLength := js_add (carryLength g1) (byteLength buffer)\<rparr>)"

partial_function (option) slicesAsync ::
  "nat \<Rightarrow> view \<Rightarrow> nat \<Rightarrow> gen \<Rightarrow> (nat \<times> gen) option" where
  "slicesAsync chunkSize buffer offset g =
     (if js_add offset chunkSize \<le> byteLength buffer
      then slicesAsync chunkSize buffer (js_add offset chunkSize)
             (yield (subarray buffer offset (js_add offset chunkSize)) g)
      else Some (offset, g))"

declare slicesAsync.simps [code]

definition save_remainderAsync :: "allocator \<Rightarrow> nat \<Rightarrow> view \<Rightarrow> nat \<Rightarrow> gen \<Rightarrow> gen" where
  "save_remainderAsync mem chunkSize buffer offset g =
     (if offset < byteLength buffer
      then let g1 = (case carryBuffer g of
                       None \<Rightarrow> (case new_Uint8Array mem chunkSize (heap g) of
                                  Inl e \<Rightarrow> throw e g
                                | Inr (cb, h) \<Rightarrow> g\<lparr>heap := h, carryBuffer := Some cb\<rparr>)
                     | Some cb \<Rightarrow> g)
           in if thrown g1 \<noteq> None then g1
              else let remainder = byteLength buffer - offset;
                       g2 = typed_set (carryBuffer g1) (subarray buffer offset (byteLength buffer)) 0 g1
                   in if thrown g2 \<noteq> None then g2 else g2\<lparr>carryLength := remainder\<rparr>
      else g)"

definition directAsync :: "allocator \<Rightarrow> nat \<Rightarrow> view \<Rightarrow> nat \<Rightarrow> gen \<Rightarrow> gen option" where
  "directAsync mem chunkSize buffer offset g =
     map_option (\<lambda>(offset', g'). save_remainderAsync mem chunkSize buffer offset' g')
       (slicesAsync chunkSize buffer offset g)"

definition bodyAsync :: "allocator \<Rightarrow> nat \<Rightarrow> js_value \<Rightarrow> gen \<Rightarrow> gen option" where
  "bodyAsync mem chunkSize part g =
     (if \<not> isView part
      then Some (throw (TypeError ''Expected iterable chunks to be Uint8Array or ArrayBufferView'') g)
      else let buffer = toUint8Array part
           in if byteLength buffer = 0 then Some g
              else if carryLength g > 0
              then let needed = chunkSize - carryLength g
                   in if byteLength buffer \<ge> needed
                      then let g1 = completeAsync mem chunkSize buffer needed g
                           in if thrown g1 \<noteq> None then Some g1
                              else directAsync mem chunkSize buffer needed g1
                      else Some (accumulateAsync buffer g)
              else directAsync mem chunkSize buffer 0 g)"

fun for_await :: "allocator \<Rightarrow> nat \<Rightarrow> js_value list \<Rightarrow> gen \<Rightarrow> gen option" where
  "for_await mem chunkSize [] g = Some g"
| "for_await mem chunkSize (part # rest) g =
     (case bodyAsync mem chunkSize part g of
        None \<Rightarrow> None
      | Some g' \<Rightarrow> if thrown g' \<noteq> None then Some g' else for_await mem chunkSize rest g')"

definition flushAsync :: "gen \<Rightarrow> gen" where
  "flushAsync g =
     (if thrown g \<noteq> None then g
      else if carryLength g > 0
      then (case carryBuffer g of
              None \<Rightarrow> throw (TypeError ''Cannot read properties of undefined'') g
            | Some cb \<Rightarrow> yield (subarray cb 0 (carryLength g)) g)
      else g)"

fun asyncIterator :: "js_value \<Rightarrow> js_value list option" where
  "asyncIterator (AsyncIterable items) = Some items"
| "asyncIterator (Dual xs ys) = Some ys"
| "asyncIterator _ = None"

text \<open>\<open>await x\<close>: the value a fulfilled promise holds, any other value as it is.\<close>

fun await :: "js_value \<Rightarrow> js_value" where
  "await (Promise x) = await x"
| "await x = x"


text \<open>
  The items \<open>for await\<close> binds to \<open>part\<close>: those of the async iterator when there is
  one (it is preferred); otherwise those of the sync iterator, each awaited.
\<close>

definition awaited_items :: "js_value \<Rightarrow> js_value list" where
  "awaited_items iterable =
     (case asyncIterator iterable of
        Some items \<Rightarrow> items
      | None \<Rightarrow> map await (the (iterator iterable)))"

definition chunkFromAsync :: "allocator \<Rightarrow> heap \<Rightarrow> js_value \<Rightarrow> js_value \<Rightarrow> gen option" where
  "chunkFromAsync mem h iterable chunkSize =
     (if asyncIterator iterable = None \<and> iterator iterable = None
      then Some (throw (TypeError ''Expected iterable to be an async iterable or iterable'') (start h))
      else if bad_chunkSize chunkSize
      then Some (throw (TypeError ''Expected chunkSize to be a positive integer'') (start h))
      else map_option flushAsync
             (for_await mem (size_of chunkSize) (awaited_items iterable) (start h)))"

text \<open>The chunks a run yielded, and the bytes read from them when they were yielded.\<close>

fun yielded :: "event list \<Rightarrow> view list" where
  "yielded [] = []"
| "yielded (Yield v bs # es) = v # yielded es"
| "yielded (Copy s t off # es) = yielded es"

fun yielded_bytes :: "event list \<Rightarrow> byte list list" where
  "yielded_bytes [] = []"
| "yielded_bytes (Yield v bs # es) = bs # yielded_bytes es"
| "yielded_bytes (Copy s t off # es) = yielded_bytes es"

section \<open>Reference descriptions\<close>

text \<open>The bytes \<open>[a, b)\<close> of a view, as a view on the same buffer.\<close>

definition slice :: "view \<Rightarrow> nat \<Rightarrow> nat \<Rightarrow> view" where
  "slice v a b = \<lparr>arrayBuffer = arrayBuffer v, byteOffset = byteOffset v + a, byteLength = b - a\<rparr>"

text \<open>
  The splitter as section 4.1 of the specification words it: the slices
  \<open>[offset, min (offset + chunkSize) length)\<close> for the offsets
  \<open>0, chunkSize, 2 * chunkSize, ...\<close> that are below the length.
\<close>

definition chunk_slices :: "view \<Rightarrow> nat \<Rightarrow> view list" where
  "chunk_slices v chunkSize =
     map (\<lambda>offset. slice v offset (min (offset + chunkSize) (byteLength v)))
       (filter (\<lambda>offset. offset < byteLength v) (map (\<lambda>k. k * chunkSize) [0..<byteLength v]))"

text \<open>
  Re-chunking as a function on the byte string alone: full chunks of \<open>chunkSize\<close> bytes,
  then what is left, if anything.
\<close>

function rechunk :: "nat \<Rightarrow> 'a list \<Rightarrow> 'a list list" where
  "rechunk c xs = (if xs = [] \<or> c = 0 then [] else take c xs # rechunk c (drop c xs))"
  by pat_completeness auto
termination
  by (relation "measure (\<lambda>(c, xs). length xs)") auto

declare rechunk.simps [simp del]

section \<open>Invariants of the loop\<close>

text \<open>The input units of a run: views that lie within the buffers of the initial heap.\<close>

definition valid_units :: "heap \<Rightarrow> js_value list \<Rightarrow> bool" where
  "valid_units h parts \<longleftrightarrow> (\<forall>x\<in>set parts. isView x \<and> valid_view h (toUint8Array x))"

definition unit_bytes :: "heap \<Rightarrow> js_value list \<Rightarrow> byte list list" where
  "unit_bytes h parts = map (\<lambda>x. read h (toUint8Array x)) parts"

text \<open>The pending bytes: the first \<open>carryLength\<close> bytes of the carry buffer.\<close>

definition carry_bytes :: "gen \<Rightarrow> byte list" where
  "carry_bytes g =
     (case carryBuffer g of
        None \<Rightarrow> []
      | Some cb \<Rightarrow> take (carryLength g) (heap g ! arrayBuffer cb))"

text \<open>
  What holds between two iterations of a run that started on the heap \<open>h0\<close>: nothing
  was thrown; fewer than \<open>chunkSize\<close> bytes are pending; the buffers of the caller are
  as they were; the carry buffer, once allocated, is a buffer of the run's own with
  exactly \<open>chunkSize\<close> bytes; and every chunk yielded so far is a view within the heap
  that still reads as it did when it was yielded, and does not look into the carry buffer.
\<close>

definition carry_ok :: "heap \<Rightarrow> nat \<Rightarrow> gen \<Rightarrow> bool" where
  "carry_ok h0 chunkSize g \<longleftrightarrow>
     thrown g = None \<and> carryLength g < chunkSize
     \<and> length h0 \<le> length (heap g) \<and> take (length h0) (heap g) = h0
     \<and> (case carryBuffer g of
           None \<Rightarrow> carryLength g = 0
         | Some cb \<Rightarrow> length h0 \<le> arrayBuffer cb \<and> arrayBuffer cb < length (heap g)
             \<and> byteOffset cb = 0 \<and> byteLength cb = chunkSize
             \<and> length (heap g ! arrayBuffer cb) = chunkSize)"

fun yield_ok :: "gen \<Rightarrow> event \<Rightarrow> bool" where
  "yield_ok g (Copy s t off) \<longleftrightarrow> True"
| "yield_ok g (Yield v bs) \<longleftrightarrow>
     valid_view (heap g) v \<and> read (heap g) v = bs
     \<and> (case carryBuffer g of None \<Rightarrow> True | Some cb \<Rightarrow> arrayBuffer v \<noteq> arrayBuffer cb)"

definition yields_ok :: "gen \<Rightarrow> bool" where
  "yields_ok g \<longleftrightarrow> (\<forall>e\<in>set (trace g). yield_ok g e)"

text \<open>
  After the run: every chunk that was yielded is a view within the final heap and reads
  there as it did when it was yielded.
\<close>

fun settled :: "heap \<Rightarrow> event \<Rightarrow> bool" where
  "settled h (Copy s t off) \<longleftrightarrow> True"
| "settled h (Yield v bs) \<longleftrightarrow> valid_view h v \<and> read h v = bs"

section \<open>What one iteration does\<close>

text \<open>
  The events of one iteration of the loop, for a unit \<open>u\<close> with bytes \<open>bs\<close> that
  arrives when \<open>cl\<close> bytes \<open>carry\<close> are pending: nothing for an empty unit; one copy
  into the carry when the unit does not complete the pending chunk; otherwise the merged
  chunk (two copies into a fresh buffer \<open>out\<close>, the first from the view \<open>s\<close> of the
  carry), then the direct slices, then one copy of what is left. \<open>t\<close> is the target of
  the copies into the carry.
\<close>

definition run_events :: "nat \<Rightarrow> view \<Rightarrow> byte list \<Rightarrow> nat \<Rightarrow> view \<Rightarrow> event list" where
  "run_events c u bs off t =
     map (\<lambda>i. Yield (slice u (off + i * c) (off + i * c + c)) (take c (drop (off + i * c) bs)))
       [0..<(byteLength u - off) div c]
     @ (if (byteLength u - off) mod c = 0 then []
        else [Copy (slice u (off + (byteLength u - off) div c * c) (byteLength u)) t 0])"

definition unit_events ::
  "nat \<Rightarrow> nat \<Rightarrow> byte list \<Rightarrow> view \<Rightarrow> view \<Rightarrow> view \<Rightarrow> view \<Rightarrow> byte list \<Rightarrow> event list" where
  "unit_events c cl carry s out t u bs =
     (if byteLength u = 0 then []
      else if 0 < cl
      then (if c - cl \<le> byteLength u
            then [Copy s out 0, Copy (slice u 0 (c - cl)) out cl, Yield out (carry @ take (c - cl) bs)]
                 @ run_events c u bs (c - cl) t
            else [Copy u t cl])
      else run_events c u bs 0 t)"

section \<open>Accounting for copies\<close>

text \<open>
  A view with \<open>arrayBuffer < n0\<close> looks into a buffer of the caller (one of the first
  \<open>n0\<close> buffers, those of the initial heap); any other into a buffer the run allocated.
  \<open>touched\<close> lists the views into the caller's buffers that the run copied from or
  yielded; the two counters add up the bytes copied from either kind of buffer.
\<close>

fun touched :: "nat \<Rightarrow> event list \<Rightarrow> view list" where
  "touched n0 [] = []"
| "touched n0 (Copy s t off # es) = (if arrayBuffer s < n0 then s # touched n0 es else touched n0 es)"
| "touched n0 (Yield v bs # es) = (if arrayBuffer v < n0 then v # touched n0 es else touched n0 es)"

fun input_copies :: "nat \<Rightarrow> event list \<Rightarrow> nat" where
  "input_copies n0 [] = 0"
| "input_copies n0 (Copy s t off # es) =
     (if arrayBuffer s < n0 then byteLength s else 0) + input_copies n0 es"
| "input_copies n0 (Yield v bs # es) = input_copies n0 es"

fun carry_copies :: "nat \<Rightarrow> event list \<Rightarrow> nat" where
  "carry_copies n0 [] = 0"
| "carry_copies n0 (Copy s t off # es) =
     (if arrayBuffer s < n0 then 0 else byteLength s) + carry_copies n0 es"
| "carry_copies n0 (Yield v bs # es) = carry_copies n0 es"

text \<open>
  \<open>tiles u vs\<close>: the views \<open>vs\<close>, in order, cut the view \<open>u\<close> into consecutive non-empty
  pieces. \<open>tiling us vs\<close>: \<open>vs\<close> splits into one such cut for each of \<open>us\<close>, in order.
\<close>

fun tiles_from :: "nat \<Rightarrow> nat \<Rightarrow> nat \<Rightarrow> view list \<Rightarrow> bool" where
  "tiles_from a pos stop [] \<longleftrightarrow> pos = stop"
| "tiles_from a pos stop (v # vs) \<longleftrightarrow>
     arrayBuffer v = a \<and> byteOffset v = pos \<and> 0 < byteLength v
     \<and> tiles_from a (pos + byteLength v) stop vs"

definition tiles :: "view \<Rightarrow> view list \<Rightarrow> bool" where
  "tiles u vs \<longleftrightarrow> tiles_from (arrayBuffer u) (byteOffset u) (byteOffset u + byteLength u) vs"

fun tiling :: "view list \<Rightarrow> view list \<Rightarrow> bool" where
  "tiling [] vs \<longleftrightarrow> vs = []"
| "tiling (u # us) vs \<longleftrightarrow>
     (\<exists>k\<in>{..length vs}. tiles u (take k vs) \<and> tiling us (drop k vs))"

section \<open>Errors\<close>

text \<open>
  The items a source hands to the loop, when it passes the source check of
  \<open>chunkFrom\<close> and of \<open>chunkFromAsync\<close> respectively; and the condition on them under
  which the runs are described: every item that is a view lies within the heap.
\<close>

definition sync_items :: "js_value \<Rightarrow> js_value list" where
  "sync_items iterable = (case iterator iterable of None \<Rightarrow> [] | Some parts \<Rightarrow> parts)"

definition async_items :: "js_value \<Rightarrow> js_value list" where
  "async_items iterable =
     (if asyncIterator iterable = None \<and> iterator iterable = None then []
      else awaited_items iterable)"

definition views_in_heap :: "heap \<Rightarrow> js_value list \<Rightarrow> bool" where
  "views_in_heap h parts \<longleftrightarrow> (\<forall>x\<in>set parts. isView x \<longrightarrow> valid_view h (toUint8Array x))"

text \<open>The error each function ends with, by the order of its checks.\<close>

definition chunk_error :: "js_value \<Rightarrow> js_value \<Rightarrow> error option" where
  "chunk_error data chunkSize =
     (if \<not> isView data then Some (TypeError ''Expected data to be ArrayBufferView'')
      else if bad_chunkSize chunkSize then Some (TypeError ''Expected chunkSize to be a positive integer'')
      else None)"

definition chunkFrom_error :: "js_value \<Rightarrow> js_value \<Rightarrow> error option" where
  "chunkFrom_error iterable chunkSize =
     (if iterator iterable = None \<or> is_string iterable
      then Some (TypeError ''Expected iterable to be an Iterable<ArrayBufferView>'')
      else if bad_chunkSize chunkSize then Some (TypeError ''Expected chunkSize to be a positive integer'')
      else if \<exists>x\<in>set (sync_items iterable). \<not> isView x
      then Some (TypeError ''Expected iterable chunks to be Uint8Array or ArrayBufferView'')
      else None)"

definition chunkFromAsync_error :: "js_value \<Rightarrow> js_value \<Rightarrow> error option" where
  "chunkFromAsync_error iterable chunkSize =
     (if asyncIterator iterable = None \<and> iterator iterable = None
      then Some (TypeError ''Expected iterable to be an async iterable or iterable'')
      else if bad_chunkSize chunkSize then Some (TypeError ''Expected chunkSize to be a positive integer'')
      else if \<exists>x\<in>set (async_items iterable). \<not> isView x
      then Some (TypeError ''Expected iterable chunks to be Uint8Array or ArrayBufferView'')
      else None)"

section \<open>Positions in the stream\<close>

text \<open>The number of input bytes before unit \<open>i\<close>, and the number of all input bytes.\<close>

definition unit_start :: "js_value list \<Rightarrow> nat \<Rightarrow> nat" where
  "unit_start parts i = sum_list (map (\<lambda>x. byteLength (toUint8Array x)) (take i parts))"

definition total_bytes :: "js_value list \<Rightarrow> nat" where
  "total_bytes parts = sum_list (map (\<lambda>x. byteLength (toUint8Array x)) parts)"

text \<open>
  \<open>shares h u v\<close>: the view \<open>v\<close> is a window on the bytes of the view \<open>u\<close>, so that
  a byte written through \<open>u\<close> at a position within \<open>v\<close> is the byte read through \<open>v\<close>.
\<close>

definition shares :: "heap \<Rightarrow> view \<Rightarrow> view \<Rightarrow> bool" where
  "shares h u v \<longleftrightarrow>
     arrayBuffer v = arrayBuffer u \<and> byteOffset u \<le> byteOffset v
     \<and> byteOffset v + byteLength v \<le> byteOffset u + byteLength u
     \<and> (\<forall>j<byteLength v. \<forall>b.
           read_byte (write_byte h u (byteOffset v - byteOffset u + j) b) v j = Some b)"

section \<open>Rounding\<close>

lemma to_double_exact: "n \<le> 2 ^ 53 \<Longrightarrow> to_double n = n"
  by (simp add: to_double_def)

lemma to_double_large:
  assumes "2 ^ 53 < n"
  shows "2 ^ 53 \<le> to_double n"
proof -
  define fl where "fl = floorlog 2 n"
  define s :: nat where "s = 2 ^ (fl - 53)"
  have n0: "0 < n" using assms by (cases n) auto
  have "(2::nat) ^ 53 \<le> n" using assms by simp
  then have fl54: "54 \<le> fl"
    unfolding fl_def using floorlog_ge_SucI [of 2 53 n] by simp
  have lo: "2 ^ (fl - 1) \<le> n"
    unfolding fl_def using floorlog_bounds [of n 2] n0 by simp
  have "(2::nat) ^ 52 * s = 2 ^ (52 + (fl - 53))"
    unfolding s_def by (simp only: power_add)
  also have "52 + (fl - 53) = fl - 1" using fl54 by simp
  finally have eq: "(2::nat) ^ 52 * s = 2 ^ (fl - 1)" .
  have spos: "0 < s" by (simp add: s_def)
  have "2 ^ 52 * s \<le> n" using eq lo by simp
  then have q: "2 ^ 52 \<le> n div s"
    using spos by (simp add: less_eq_div_iff_mult_less_eq)
  have "(2::nat) ^ 53 \<le> 2 ^ (fl - 1)"
    using fl54 by (intro power_increasing) auto
  also have "\<dots> = 2 ^ 52 * s" using eq by simp
  also have "\<dots> \<le> (n div s) * s" using q by (intro mult_le_mono1)
  finally have base: "2 ^ 53 \<le> (n div s) * s" .
  have "(n div s) * s \<le> (n div s + 1) * s" by simp
  with base have base2: "2 ^ 53 \<le> (n div s + 1) * s" by (rule order_trans)
  have "\<not> n \<le> 2 ^ 53" using assms by simp
  then show ?thesis
    using base base2 unfolding to_double_def Let_def s_def fl_def
    by (simp only: if_False split: if_split) auto
qed

lemma js_add_exact: "a + b \<le> 2 ^ 53 \<Longrightarrow> js_add a b = a + b"
  by (simp add: js_add_def to_double_exact)

lemma js_add_le_iff:
  "n \<le> MAX_SAFE_INTEGER \<Longrightarrow> js_add a b \<le> n \<longleftrightarrow> a + b \<le> n"
  using to_double_large [of "a + b"] to_double_exact [of "a + b"]
  by (cases "a + b \<le> 2 ^ 53") (auto simp: js_add_def MAX_SAFE_INTEGER_def)

lemma js_add_less_iff:
  "n \<le> MAX_SAFE_INTEGER \<Longrightarrow> js_add a b < n \<longleftrightarrow> a + b < n"
  using to_double_large [of "a + b"] to_double_exact [of "a + b"]
  by (cases "a + b \<le> 2 ^ 53") (auto simp: js_add_def MAX_SAFE_INTEGER_def)

lemma min_js_add:
  "n \<le> MAX_SAFE_INTEGER \<Longrightarrow> min (js_add a b) n = min (a + b) n"
  using js_add_le_iff [of n a b] js_add_exact [of a b]
  by (auto simp: min_def MAX_SAFE_INTEGER_def)

lemma js_add_safe: "a + b \<le> MAX_SAFE_INTEGER \<Longrightarrow> js_add a b = a + b"
  by (rule js_add_exact) (simp add: MAX_SAFE_INTEGER_def)

section \<open>Argument checks\<close>

lemma good_chunkSize:
  assumes "\<not> bad_chunkSize chunkSize"
  shows "0 < size_of chunkSize" and "size_of chunkSize \<le> MAX_SAFE_INTEGER"
proof -
  from assms obtain q where v: "chunkSize = Number (Finite q)"
    and int: "of_int \<lfloor>q\<rfloor> = q" and le: "\<bar>q\<bar> \<le> 2 ^ 53 - 1" and pos: "0 < q"
    unfolding bad_chunkSize_def
    by (cases chunkSize rule: isSafeInteger.cases) (simp_all, linarith)
  have fpos: "0 < \<lfloor>q\<rfloor>" using pos int by (metis of_int_0_less_iff)
  then show "0 < size_of chunkSize" using v by simp
  have "q \<le> 2 ^ 53 - 1" using le by linarith
  then have "(of_int \<lfloor>q\<rfloor> :: rat) \<le> of_int (2 ^ 53 - 1)" using int by simp
  then have "\<lfloor>q\<rfloor> \<le> 2 ^ 53 - 1" by (simp only: of_int_le_iff)
  then have "nat \<lfloor>q\<rfloor> \<le> nat (2 ^ 53 - 1)" by (rule nat_mono)
  also have "nat (2 ^ 53 - 1) = MAX_SAFE_INTEGER"
    unfolding MAX_SAFE_INTEGER_def by (simp add: nat_diff_distrib nat_power_eq)
  finally show "size_of chunkSize \<le> MAX_SAFE_INTEGER"
    using v by simp
qed

section \<open>The single-buffer splitter\<close>

lemma ceil_div_less: "0 < c \<Longrightarrow> k < (n + c - 1) div c \<longleftrightarrow> k * c < n" for c :: nat
proof -
  assume c: "0 < c"
  have "k < (n + c - 1) div c \<longleftrightarrow> Suc k \<le> (n + c - 1) div c" by auto
  also have "\<dots> \<longleftrightarrow> Suc k * c \<le> n + c - 1"
    using c by (simp only: less_eq_div_iff_mult_less_eq)
  also have "\<dots> \<longleftrightarrow> k * c < n" using c by auto
  finally show ?thesis .
qed

lemma chunk_loop_done:
  "byteLength u \<le> offset \<Longrightarrow> chunk_loop u c offset ys = Some ys"
  by (subst chunk_loop.simps) simp

lemma subarray_slice:
  "a \<le> byteLength v \<Longrightarrow> subarray v a b = slice v a (min b (byteLength v))"
  by (simp add: subarray_def slice_def Let_def min_def)

lemma chunk_loop_run:
  assumes c: "0 < c" and len: "byteLength u \<le> MAX_SAFE_INTEGER"
  shows "k \<le> (byteLength u + c - 1) div c \<Longrightarrow>
    chunk_loop u c (k * c) ys =
      Some (ys @ map (\<lambda>j. slice u (j * c) (min (j * c + c) (byteLength u)))
                    [k..<(byteLength u + c - 1) div c])"
proof (induction "(byteLength u + c - 1) div c - k" arbitrary: k ys)
  case 0
  then have "k = (byteLength u + c - 1) div c" by simp
  then have "\<not> k * c < byteLength u" using ceil_div_less [OF c, of k "byteLength u"] by simp
  then show ?case using 0 by (simp add: chunk_loop_done)
next
  case (Suc d)
  let ?n = "(byteLength u + c - 1) div c"
  let ?f = "\<lambda>j. slice u (j * c) (min (j * c + c) (byteLength u))"
  from Suc have k: "k < ?n" by simp
  then have lt: "k * c < byteLength u" using ceil_div_less [OF c] by simp
  have sub: "subarray u (k * c) (js_add (k * c) c) = ?f k"
    using lt len by (simp add: subarray_slice min_js_add)
  have upt: "[k..<?n] = k # [Suc k..<?n]" using k by (simp add: upt_conv_Cons)
  show ?case
  proof (cases "Suc k * c < byteLength u")
    case True
    then have ex: "js_add (k * c) c = Suc k * c"
      using len by (intro js_add_safe [THEN trans]) auto
    have "Suc k \<le> ?n" using k by simp
    moreover have "d = ?n - Suc k" using Suc by simp
    ultimately have "chunk_loop u c (Suc k * c) (ys @ [?f k]) =
        Some ((ys @ [?f k]) @ map ?f [Suc k..<?n])"
      by (rule Suc.hyps(1) [rotated])
    then show ?thesis
      using lt sub ex upt by (subst chunk_loop.simps) simp
  next
    case False
    then have "\<not> Suc k < ?n" using ceil_div_less [OF c] by simp
    then have last: "[Suc k..<?n] = []" by simp
    have "\<not> js_add (k * c) c < byteLength u"
      using False len by (simp add: js_add_less_iff)
    then have "chunk_loop u c (js_add (k * c) c) (ys @ [?f k]) = Some (ys @ [?f k])"
      by (intro chunk_loop_done) simp
    then show ?thesis
      using lt sub upt last by (subst chunk_loop.simps) simp
  qed
qed

lemma offsets_below:
  assumes c: "0 < c"
  shows "filter (\<lambda>offset. offset < n) (map (\<lambda>k. k * c) [0..<n])
       = map (\<lambda>k. k * c) [0..<(n + c - 1) div c]"
proof -
  let ?m = "(n + c - 1) div c"
  have mn: "?m \<le> n"
  proof (rule ccontr)
    assume "\<not> ?m \<le> n"
    then have "n < ?m" by simp
    then have "n * c < n" using ceil_div_less [OF c] by simp
    then show False using c by simp
  qed
  have split: "[0..<n] = [0..<?m] @ [?m..<n]"
    using mn upt_add_eq_append [of 0 ?m "n - ?m"] by simp
  have a: "filter (\<lambda>k. k * c < n) [0..<?m] = [0..<?m]"
  proof (rule filter_True)
    show "\<forall>k\<in>set [0..<?m]. k * c < n"
      using ceil_div_less [OF c, of _ n] by simp
  qed
  have b: "filter (\<lambda>k. k * c < n) [?m..<n] = []"
  proof (rule filter_False)
    show "\<forall>k\<in>set [?m..<n]. \<not> k * c < n"
    proof
      fix k assume "k \<in> set [?m..<n]"
      then have "\<not> k < ?m" by simp
      then show "\<not> k * c < n" using ceil_div_less [OF c, of k n] by simp
    qed
  qed
  have "filter (\<lambda>offset. offset < n) (map (\<lambda>k. k * c) [0..<n])
      = map (\<lambda>k. k * c) (filter (\<lambda>k. k * c < n) [0..<n])"
    by (simp add: filter_map o_def)
  also have "filter (\<lambda>k. k * c < n) [0..<n] = [0..<?m]"
    by (subst split) (simp only: filter_append a b append_Nil2)
  finally show ?thesis .
qed

lemma chunk_run:
  assumes "isView data" "\<not> bad_chunkSize chunkSize"
    "byteLength (toUint8Array data) \<le> MAX_SAFE_INTEGER"
  shows "chunk data chunkSize =
    Some (map (\<lambda>k. slice (toUint8Array data) (k * size_of chunkSize)
                 (min (k * size_of chunkSize + size_of chunkSize) (byteLength (toUint8Array data))))
            [0..<(byteLength (toUint8Array data) + size_of chunkSize - 1) div size_of chunkSize], None)"
  using assms chunk_loop_run [OF good_chunkSize(1) [OF assms(2)] assms(3), of 0 "[]"]
  by (simp add: chunk_def)

section \<open>The asynchronous variant runs the same loop\<close>

lemma slices_imp_slicesAsync:
  assumes "slices c b off g = Some r"
  shows "slicesAsync c b off g = Some r"
  by (rule slices.raw_induct
        [where P = "\<lambda>c b off g r. slicesAsync c b off g = Some r", OF _ assms])
     (subst slicesAsync.simps, auto split: if_splits)

lemma slicesAsync_imp_slices:
  assumes "slicesAsync c b off g = Some r"
  shows "slices c b off g = Some r"
  by (rule slicesAsync.raw_induct
        [where P = "\<lambda>c b off g r. slices c b off g = Some r", OF _ assms])
     (subst slices.simps, auto split: if_splits)

lemma slicesAsync_eq: "slicesAsync c b off g = slices c b off g"
proof (cases "slices c b off g")
  case None
  then show ?thesis
    using slicesAsync_imp_slices [of c b off g] by (cases "slicesAsync c b off g") auto
next
  case (Some r)
  then show ?thesis by (simp add: slices_imp_slicesAsync)
qed

lemma bodyAsync_eq: "bodyAsync mem c part g = body mem c part g"
proof -
  have 1: "completeAsync = complete"
    by (intro ext) (simp add: completeAsync_def complete_def)
  have 2: "accumulateAsync = accumulate"
    by (intro ext) (simp add: accumulateAsync_def accumulate_def)
  have 3: "save_remainderAsync = save_remainder"
    by (intro ext) (simp add: save_remainderAsync_def save_remainder_def)
  have 4: "directAsync = direct"
    by (intro ext) (simp add: directAsync_def direct_def slicesAsync_eq 3)
  show ?thesis by (simp add: bodyAsync_def body_def Let_def 1 2 4)
qed

lemma for_await_eq: "for_await mem c parts g = for_of mem c parts g"
  by (induction parts arbitrary: g) (simp_all add: bodyAsync_eq split: option.splits)

lemma flushAsync_eq: "flushAsync g = flush g"
  by (simp add: flushAsync_def flush_def)



section \<open>Evaluating a run on a concrete input\<close>

lemmas run_defs = chunkFrom_def bad_chunkSize_def body_def direct_def slices.simps
  complete_def accumulate_def save_remainder_def flush_def typed_set_def yield_def throw_def
  start_def new_Uint8Array_def limited_def unbounded_def allocation_failed_def subarray_def
  read_def js_add_def to_double_def Let_def

section \<open>The direct slices\<close>

lemma slices_stop:
  "\<not> js_add off c \<le> byteLength u \<Longrightarrow> slices c u off g = Some (off, g)"
  by (subst slices.simps) simp

lemma map_upt_Suc_shift: "map f [0..<Suc k] = f 0 # map (\<lambda>i. f (Suc i)) [0..<k]"
  by (simp only: upt_conv_Cons [of 0 "Suc k"] map_Suc_upt [symmetric] list.map map_map o_def)

lemma slices_run:
  assumes c: "0 < c" and len: "byteLength u \<le> MAX_SAFE_INTEGER"
  shows "off + k * c \<le> byteLength u \<Longrightarrow> byteLength u < off + k * c + c \<Longrightarrow>
    slices c u off g =
      Some (off + k * c,
            g\<lparr>trace := trace g @
                 map (\<lambda>i. Yield (slice u (off + i * c) (off + i * c + c))
                            (read (heap g) (slice u (off + i * c) (off + i * c + c)))) [0..<k]\<rparr>)"
proof (induction k arbitrary: off g)
  case 0
  then have "\<not> js_add off c \<le> byteLength u"
    using len by (simp add: js_add_le_iff)
  then show ?case by (simp add: slices_stop)
next
  case (Suc k)
  let ?f = "\<lambda>p i. Yield (slice u (p + i * c) (p + i * c + c))
                        (read (heap g) (slice u (p + i * c) (p + i * c + c)))"
  let ?g = "g\<lparr>trace := trace g @ [?f off 0]\<rparr>"
  have le: "off + c \<le> byteLength u" using Suc.prems by simp
  then have ex: "js_add off c = off + c"
    using len by (intro js_add_safe) simp
  have sub: "subarray u off (off + c) = slice u off (off + c)"
    using le by (simp add: subarray_slice)
  have "slices c u off g = slices c u (off + c) ?g"
    using le by (subst slices.simps) (simp add: ex sub yield_def)
  also have "\<dots> = Some (off + c + k * c, ?g\<lparr>trace := trace ?g @ map (?f (off + c)) [0..<k]\<rparr>)"
    using Suc.prems Suc.IH [of "off + c" ?g] by (simp add: add.assoc)
  also have "off + c + k * c = off + Suc k * c" by simp
  also have "?g\<lparr>trace := trace ?g @ map (?f (off + c)) [0..<k]\<rparr>
      = g\<lparr>trace := trace g @ map (?f off) [0..<Suc k]\<rparr>"
  proof -
    have "\<And>i. ?f off (Suc i) = ?f (off + c) i" by (simp add: add.assoc)
    then have "map (?f off) [0..<Suc k] = ?f off 0 # map (?f (off + c)) [0..<k]"
      by (simp only: map_upt_Suc_shift)
    then show ?thesis by simp
  qed
  finally show ?case .
qed

section \<open>Traces and frames\<close>

lemma yielded_append [simp]: "yielded (es @ es') = yielded es @ yielded es'"
  by (induction es rule: yielded.induct) simp_all

lemma yielded_bytes_append [simp]: "yielded_bytes (es @ es') = yielded_bytes es @ yielded_bytes es'"
  by (induction es rule: yielded_bytes.induct) simp_all

lemma touched_append [simp]: "touched n0 (es @ es') = touched n0 es @ touched n0 es'"
  by (induction n0 es rule: touched.induct) simp_all

lemma input_copies_append [simp]:
  "input_copies n0 (es @ es') = input_copies n0 es + input_copies n0 es'"
  by (induction n0 es rule: input_copies.induct) simp_all

lemma carry_copies_append [simp]:
  "carry_copies n0 (es @ es') = carry_copies n0 es + carry_copies n0 es'"
  by (induction n0 es rule: carry_copies.induct) simp_all

text \<open>A view of the caller reads the same in every later heap.\<close>

lemma caller_view:
  assumes "take (length h0) h = h0" and "length h0 \<le> length h" and "valid_view h0 u"
  shows "read h u = read h0 u" and "valid_view h u" and "length (read h0 u) = byteLength u"
    and "arrayBuffer u < length h0"
proof -
  have a: "arrayBuffer u < length h0" using assms(3) by (simp add: valid_view_def)
  then have "h ! arrayBuffer u = take (length h0) h ! arrayBuffer u" by simp
  then have eq: "h ! arrayBuffer u = h0 ! arrayBuffer u" using assms(1) by simp
  show "read h u = read h0 u" by (simp add: read_def eq)
  show "valid_view h u" using assms(2,3) a by (simp add: valid_view_def eq)
  show "length (read h0 u) = byteLength u" using assms(3) by (auto simp: read_def valid_view_def)
  show "arrayBuffer u < length h0" by (rule a)
qed

text \<open>
  Chunks yielded earlier are not disturbed when buffers are added and only the carry
  buffer is written.
\<close>

lemma yields_ok_frame:
  assumes ok: "yields_ok g"
    and len: "length (heap g) \<le> length (heap g')"
    and same: "\<And>i. i < length (heap g) \<Longrightarrow>
        (case carryBuffer g' of None \<Rightarrow> True | Some cb \<Rightarrow> i \<noteq> arrayBuffer cb) \<Longrightarrow>
        heap g' ! i = heap g ! i"
    and carry: "case carryBuffer g of
        Some cb \<Rightarrow> carryBuffer g' = Some cb
      | None \<Rightarrow> (case carryBuffer g' of None \<Rightarrow> True | Some cb \<Rightarrow> length (heap g) \<le> arrayBuffer cb)"
    and tr: "trace g' = trace g @ es"
    and new: "\<And>e. e \<in> set es \<Longrightarrow> yield_ok g' e"
  shows "yields_ok g'"
  unfolding yields_ok_def
proof
  fix e assume "e \<in> set (trace g')"
  then consider "e \<in> set (trace g)" | "e \<in> set es" using tr by auto
  then show "yield_ok g' e"
  proof cases
    case 1
    then have old: "yield_ok g e" using ok by (simp add: yields_ok_def)
    show ?thesis
    proof (cases e)
      case (Copy s t off)
      then show ?thesis by simp
    next
      case (Yield v bs)
      with old have v: "valid_view (heap g) v" and r: "read (heap g) v = bs"
        and nc: "case carryBuffer g of None \<Rightarrow> True | Some cb \<Rightarrow> arrayBuffer v \<noteq> arrayBuffer cb"
        by simp_all
      have lt: "arrayBuffer v < length (heap g)" using v by (simp add: valid_view_def)
      have nc': "case carryBuffer g' of None \<Rightarrow> True | Some cb \<Rightarrow> arrayBuffer v \<noteq> arrayBuffer cb"
        using nc carry lt by (auto split: option.splits)
      then have eq: "heap g' ! arrayBuffer v = heap g ! arrayBuffer v"
        using same [OF lt] by simp
      show ?thesis
        using v r nc' lt len by (simp add: Yield valid_view_def read_def eq)
    qed
  next
    case 2
    then show ?thesis by (rule new)
  qed
qed

lemma carry_bytes_length:
  "carry_ok h0 c g \<Longrightarrow> length (carry_bytes g) = carryLength g"
  by (auto simp: carry_ok_def carry_bytes_def split: option.splits)

section \<open>One iteration of the loop\<close>

lemma accumulate_step:
  assumes ok: "carry_ok h0 c g" and y: "yields_ok g" and u: "valid_view h0 u"
    and pending: "0 < carryLength g" and small: "byteLength u < c - carryLength g"
    and c: "c \<le> MAX_SAFE_INTEGER"
  obtains t where "trace (accumulate u g) = trace g @ [Copy u t (carryLength g)]"
    and "carry_ok h0 c (accumulate u g)" and "yields_ok (accumulate u g)"
    and "carryLength (accumulate u g) = carryLength g + byteLength u"
    and "carry_bytes (accumulate u g) = carry_bytes g @ read h0 u"
    and "carryBuffer (accumulate u g) = Some t" and "carryBuffer g = Some t"
proof -
  from ok pending obtain cb where cb: "carryBuffer g = Some cb"
    and a0: "length h0 \<le> arrayBuffer cb" and a1: "arrayBuffer cb < length (heap g)"
    and off: "byteOffset cb = 0" and cap: "byteLength cb = c"
    and full: "length (heap g ! arrayBuffer cb) = c"
    by (auto simp: carry_ok_def split: option.splits)
  from ok have pre: "take (length h0) (heap g) = h0" "length h0 \<le> length (heap g)"
    and nothrow: "thrown g = None"
    by (simp_all add: carry_ok_def)
  note cv = caller_view [OF pre u]
  let ?old = "heap g ! arrayBuffer cb"
  let ?new = "take (carryLength g) ?old @ read h0 u @ drop (carryLength g + byteLength u) ?old"
  let ?g = "g\<lparr>heap := (heap g)[arrayBuffer cb := ?new],
               trace := trace g @ [Copy u cb (carryLength g)],
               carryLength := carryLength g + byteLength u\<rparr>"
  have sum: "carryLength g + byteLength u < c" using small by simp
  then have "js_add (carryLength g) (byteLength u) = carryLength g + byteLength u"
    using c by (intro js_add_safe) simp
  then have eq: "accumulate u g = ?g"
    using sum cap off nothrow cb cv(1)
    by (simp add: accumulate_def typed_set_def Let_def throw_def)
  have newlen: "length ?new = c" using full sum cv(3) by simp
  have 1: "trace (accumulate u g) = trace g @ [Copy u cb (carryLength g)]" by (simp add: eq)
  have 2: "carry_ok h0 c (accumulate u g)"
    using ok sum a0 a1 newlen cb off cap by (simp add: eq carry_ok_def)
  have 3: "yields_ok (accumulate u g)"
  proof (rule yields_ok_frame [OF y])
    show "trace (accumulate u g) = trace g @ [Copy u cb (carryLength g)]" by (rule 1)
  qed (simp_all add: eq cb)
  have 4: "carryLength (accumulate u g) = carryLength g + byteLength u" by (simp add: eq)
  have 5: "carry_bytes (accumulate u g) = carry_bytes g @ read h0 u"
    using a1 full sum cv(3) by (simp add: eq carry_bytes_def cb)
  have 6: "carryBuffer (accumulate u g) = Some cb" by (simp add: eq cb)
  show ?thesis using that [OF 1 2 3 4 5 6 cb] .
qed

lemma caller_buffer: "take (length h0) h = h0 \<Longrightarrow> i < length h0 \<Longrightarrow> h ! i = h0 ! i"
  by (metis nth_take)

lemma read_fresh:
  "length xs = n \<Longrightarrow>
    read (h @ [xs]) \<lparr>arrayBuffer = length h, byteOffset = 0, byteLength = n\<rparr> = xs"
  by (simp add: read_def)

lemma complete_step:
  assumes ok: "carry_ok h0 c g" and y: "yields_ok g" and u: "valid_view h0 u"
    and pending: "0 < carryLength g" and enough: "c - carryLength g \<le> byteLength u"
    and c_le: "c \<le> MAX_SAFE_INTEGER"
  obtains s out where
    "trace (complete unbounded c u (c - carryLength g) g) =
       trace g @ [Copy s out 0, Copy (slice u 0 (c - carryLength g)) out (carryLength g),
                  Yield out (carry_bytes g @ take (c - carryLength g) (read h0 u))]"
    and "length h0 \<le> arrayBuffer s" and "byteLength s = carryLength g"
    and "length h0 \<le> arrayBuffer out" and "byteLength out = c"
    and "carry_ok h0 c (complete unbounded c u (c - carryLength g) g)"
    and "yields_ok (complete unbounded c u (c - carryLength g) g)"
    and "carryLength (complete unbounded c u (c - carryLength g) g) = 0"
    and "\<exists>cb. carryBuffer g = Some cb \<and> arrayBuffer s = arrayBuffer cb \<and> byteOffset s = 0"
    and "carryBuffer (complete unbounded c u (c - carryLength g) g) = carryBuffer g"
proof -
  from ok pending obtain cb where cb: "carryBuffer g = Some cb"
    and a0: "length h0 \<le> arrayBuffer cb" and a1: "arrayBuffer cb < length (heap g)"
    and off: "byteOffset cb = 0" and cap: "byteLength cb = c"
    and full: "length (heap g ! arrayBuffer cb) = c"
    by (auto simp: carry_ok_def split: option.splits)
  from ok have pre: "take (length h0) (heap g) = h0" "length h0 \<le> length (heap g)"
    and nothrow: "thrown g = None" and lt: "carryLength g < c"
    by (simp_all add: carry_ok_def)
  note cv = caller_view [OF pre u]
  let ?cl = "carryLength g"
  let ?needed = "c - ?cl"
  let ?out = "\<lparr>arrayBuffer = length (heap g), byteOffset = 0, byteLength = c\<rparr>"
  let ?s = "subarray cb 0 ?cl"
  let ?bytes = "carry_bytes g @ take ?needed (read h0 u)"
  let ?g = "g\<lparr>heap := heap g @ [?bytes],
               trace := trace g @ [Copy ?s ?out 0, Copy (slice u 0 ?needed) ?out ?cl, Yield ?out ?bytes],
               carryLength := 0\<rparr>"
  have s: "?s = \<lparr>arrayBuffer = arrayBuffer cb, byteOffset = 0, byteLength = ?cl\<rparr>"
    using lt by (simp add: subarray_def cap off min_def)
  have cbytes: "carry_bytes g = take ?cl (heap g ! arrayBuffer cb)"
    by (simp add: carry_bytes_def cb)
  have clen: "length (carry_bytes g) = ?cl" using ok by (rule carry_bytes_length)
  have ub: "arrayBuffer u < length (heap g)" using cv(4) pre(2) by simp
  have sub: "subarray u 0 ?needed = slice u 0 ?needed"
    using enough by (simp add: subarray_slice)
  have r1: "read (heap g @ [replicate c 0]) ?s = carry_bytes g"
    using a1 by (simp add: s read_def cbytes nth_append)
  have r2: "read (heap g @ [carry_bytes g @ replicate ?needed 0]) (slice u 0 ?needed)
      = take ?needed (read h0 u)"
    using ub enough caller_buffer [OF pre(1) cv(4)]
    by (simp add: read_def slice_def nth_append min_def take_take)
  have blen: "length ?bytes = c" using clen cv(3) enough lt by simp
  have g1: "typed_set (Some ?out) ?s 0 (g\<lparr>heap := heap g @ [replicate c 0]\<rparr>)
      = g\<lparr>heap := heap g @ [carry_bytes g @ replicate ?needed 0],
           trace := trace g @ [Copy ?s ?out 0]\<rparr>"
    using lt clen by (simp add: typed_set_def r1 Let_def) (simp add: s)
  have g2: "typed_set (Some ?out) (slice u 0 ?needed) ?cl
        (g\<lparr>heap := heap g @ [carry_bytes g @ replicate ?needed 0],
           trace := trace g @ [Copy ?s ?out 0]\<rparr>)
      = g\<lparr>heap := heap g @ [?bytes],
           trace := trace g @ [Copy ?s ?out 0, Copy (slice u 0 ?needed) ?out ?cl]\<rparr>"
    using lt clen cv(3) enough by (simp add: typed_set_def r2 Let_def) (simp add: slice_def)
  have r3: "read (heap g @ [?bytes]) ?out = ?bytes"
    using blen by (rule read_fresh)
  have eq: "complete unbounded c u ?needed g = ?g"
    using nothrow
    by (simp add: complete_def new_Uint8Array_def unbounded_def cb g1 sub g2 yield_def r3)
  have 1: "trace (complete unbounded c u ?needed g) =
       trace g @ [Copy ?s ?out 0, Copy (slice u 0 ?needed) ?out ?cl, Yield ?out ?bytes]"
    by (simp add: eq)
  have 2: "carry_ok h0 c (complete unbounded c u ?needed g)"
    using ok pending a0 a1 full cb off cap by (simp add: eq carry_ok_def nth_append)
  have 3: "yields_ok (complete unbounded c u ?needed g)"
  proof (rule yields_ok_frame [OF y])
    show "trace (complete unbounded c u ?needed g) =
       trace g @ [Copy ?s ?out 0, Copy (slice u 0 ?needed) ?out ?cl, Yield ?out ?bytes]"
      by (rule 1)
    show "yield_ok (complete unbounded c u ?needed g) e"
      if "e \<in> set [Copy ?s ?out 0, Copy (slice u 0 ?needed) ?out ?cl, Yield ?out ?bytes]" for e
      using that blen a1 r3 c_le
      by (auto simp: eq cb valid_view_def)
  qed (simp_all add: eq cb nth_append)
  show ?thesis
    using that [of ?s ?out] 1 2 3 a0 lt pre(2) by (simp add: s eq cb)
qed

lemma read_tail:
  assumes "take (length h0) h = h0" and "length h0 \<le> length h" and "valid_view h0 u"
    and "off \<le> byteLength u"
  shows "read h (slice u off (byteLength u)) = drop off (read h0 u)"
proof -
  have "arrayBuffer u < length h0" using assms(3) by (simp add: valid_view_def)
  then have "h ! arrayBuffer u = h0 ! arrayBuffer u" using assms(1) by (rule caller_buffer [rotated])
  then show ?thesis
    by (simp add: read_def slice_def drop_take add.commute)
qed

lemma save_remainder_step:
  assumes ok: "carry_ok h0 c g" and y: "yields_ok g" and u: "valid_view h0 u"
    and empty: "carryLength g = 0" and off: "off < byteLength u" and rest: "byteLength u - off < c"
  obtains t where
    "trace (save_remainder unbounded c u off g) = trace g @ [Copy (slice u off (byteLength u)) t 0]"
    and "carry_ok h0 c (save_remainder unbounded c u off g)"
    and "yields_ok (save_remainder unbounded c u off g)"
    and "carryLength (save_remainder unbounded c u off g) = byteLength u - off"
    and "carry_bytes (save_remainder unbounded c u off g) = drop off (read h0 u)"
    and "carryBuffer (save_remainder unbounded c u off g) = Some t"
    and "\<forall>cb. carryBuffer g = Some cb \<longrightarrow> t = cb"
proof -
  from ok have pre: "take (length h0) (heap g) = h0" "length h0 \<le> length (heap g)"
    and nothrow: "thrown g = None"
    by (simp_all add: carry_ok_def)
  note cv = caller_view [OF pre u]
  let ?r = "byteLength u - off"
  let ?src = "slice u off (byteLength u)"
  let ?rd = "drop off (read h0 u)"
  have sub: "subarray u off (byteLength u) = ?src"
    using off by (simp add: subarray_slice)
  have srclen: "byteLength ?src = ?r" by (simp add: slice_def)
  have rdlen: "length ?rd = ?r" using cv(3) by simp
  show ?thesis
  proof (cases "carryBuffer g")
    case None
    let ?cb = "\<lparr>arrayBuffer = length (heap g), byteOffset = 0, byteLength = c\<rparr>"
    let ?g = "g\<lparr>heap := heap g @ [?rd @ replicate (c - ?r) 0], carryBuffer := Some ?cb,
                 trace := trace g @ [Copy ?src ?cb 0], carryLength := ?r\<rparr>"
    have rd: "read (heap g @ [replicate c 0]) ?src = ?rd"
      using pre off u by (intro read_tail) simp_all
    have eq: "save_remainder unbounded c u off g = ?g"
      using off rest nothrow
      by (simp add: save_remainder_def None new_Uint8Array_def unbounded_def sub typed_set_def srclen rd Let_def)
    have 1: "trace (save_remainder unbounded c u off g) = trace g @ [Copy ?src ?cb 0]" by (simp add: eq)
    have 2: "carry_ok h0 c (save_remainder unbounded c u off g)"
      using ok rest rdlen by (simp add: eq carry_ok_def)
    have 3: "yields_ok (save_remainder unbounded c u off g)"
    proof (rule yields_ok_frame [OF y])
      show "trace (save_remainder unbounded c u off g) = trace g @ [Copy ?src ?cb 0]" by (rule 1)
    qed (simp_all add: eq None nth_append)
    have 5: "carry_bytes (save_remainder unbounded c u off g) = ?rd"
      using rdlen by (simp add: eq carry_bytes_def)
    have 6: "carryBuffer (save_remainder unbounded c u off g) = Some ?cb" by (simp add: eq)
    have 7: "\<forall>cb. carryBuffer g = Some cb \<longrightarrow> ?cb = cb" by (simp add: None)
    have 4: "carryLength (save_remainder unbounded c u off g) = byteLength u - off" by (simp add: eq)
    show ?thesis by (rule that [OF 1 2 3 4 5 6 7])
  next
    case (Some cb)
    with ok have a0: "length h0 \<le> arrayBuffer cb" and a1: "arrayBuffer cb < length (heap g)"
      and boff: "byteOffset cb = 0" and cap: "byteLength cb = c"
      and full: "length (heap g ! arrayBuffer cb) = c"
      by (auto simp: carry_ok_def)
    let ?old = "heap g ! arrayBuffer cb"
    let ?g = "g\<lparr>heap := (heap g)[arrayBuffer cb := ?rd @ drop ?r ?old],
                 trace := trace g @ [Copy ?src cb 0], carryLength := ?r\<rparr>"
    have rd: "read (heap g) ?src = ?rd"
      using pre off u by (intro read_tail) simp_all
    have eq: "save_remainder unbounded c u off g = ?g"
      using off rest nothrow
      by (simp add: save_remainder_def Some sub typed_set_def srclen rd Let_def cap boff)
    have 1: "trace (save_remainder unbounded c u off g) = trace g @ [Copy ?src cb 0]" by (simp add: eq)
    have 2: "carry_ok h0 c (save_remainder unbounded c u off g)"
      using ok rest rdlen a0 a1 full boff cap by (simp add: eq carry_ok_def Some)
    have 3: "yields_ok (save_remainder unbounded c u off g)"
    proof (rule yields_ok_frame [OF y])
      show "trace (save_remainder unbounded c u off g) = trace g @ [Copy ?src cb 0]" by (rule 1)
    qed (simp_all add: eq Some)
    have 5: "carry_bytes (save_remainder unbounded c u off g) = ?rd"
      using rdlen a1 by (simp add: eq carry_bytes_def Some)
    have 6: "carryBuffer (save_remainder unbounded c u off g) = Some cb" by (simp add: eq Some)
    have 7: "\<forall>cb'. carryBuffer g = Some cb' \<longrightarrow> cb = cb'" by (simp add: Some)
    have 4: "carryLength (save_remainder unbounded c u off g) = byteLength u - off" by (simp add: eq)
    show ?thesis by (rule that [OF 1 2 3 4 5 6 7])
  qed
qed

lemma read_slice:
  assumes "take (length h0) h = h0" and "length h0 \<le> length h" and "valid_view h0 u"
    and "b \<le> byteLength u"
  shows "read h (slice u a b) = take (b - a) (drop a (read h0 u))"
proof -
  have "arrayBuffer u < length h0" using assms(3) by (simp add: valid_view_def)
  then have "h ! arrayBuffer u = h0 ! arrayBuffer u" using assms(1) by (rule caller_buffer [rotated])
  then show ?thesis
    using assms(4) by (simp add: read_def slice_def drop_take add.commute min_def)
qed

lemma valid_slice:
  assumes "take (length h0) h = h0" and "length h0 \<le> length h" and "valid_view h0 u"
    and "a \<le> b" and "b \<le> byteLength u"
  shows "valid_view h (slice u a b)"
proof -
  have lt: "arrayBuffer u < length h0" using assms(3) by (simp add: valid_view_def)
  then have "h ! arrayBuffer u = h0 ! arrayBuffer u" using assms(1) by (rule caller_buffer [rotated])
  then show ?thesis
    using assms(2-5) lt by (auto simp: valid_view_def slice_def)
qed

lemma direct_step:
  assumes ok: "carry_ok h0 c g" and y: "yields_ok g" and u: "valid_view h0 u"
    and empty: "carryLength g = 0" and off: "off \<le> byteLength u"
    and c: "0 < c" "c \<le> MAX_SAFE_INTEGER"
  obtains g' t where "direct unbounded c u off g = Some g'"
    and "trace g' = trace g @
           map (\<lambda>i. Yield (slice u (off + i * c) (off + i * c + c))
                      (take c (drop (off + i * c) (read h0 u))))
             [0..<(byteLength u - off) div c]
           @ (if (byteLength u - off) mod c = 0 then []
              else [Copy (slice u (off + (byteLength u - off) div c * c) (byteLength u)) t 0])"
    and "carry_ok h0 c g'" and "yields_ok g'"
    and "carryLength g' = (byteLength u - off) mod c"
    and "carry_bytes g' = drop (off + (byteLength u - off) div c * c) (read h0 u)"
    and "(byteLength u - off) mod c \<noteq> 0 \<longrightarrow> carryBuffer g' = Some t"
    and "\<forall>cb. carryBuffer g = Some cb \<longrightarrow> carryBuffer g' = Some cb"
proof -
  let ?n = "byteLength u"
  let ?k = "(?n - off) div c"
  let ?r = "(?n - off) mod c"
  let ?end = "off + ?k * c"
  from ok have pre: "take (length h0) (heap g) = h0" "length h0 \<le> length (heap g)"
    by (simp_all add: carry_ok_def)
  note cv = caller_view [OF pre u]
  have split: "?n - off = ?k * c + ?r" by simp
  have le: "?end \<le> ?n" using off split by linarith
  have lt: "?n < ?end + c"
  proof -
    have "?r < c" using c(1) by simp
    then show ?thesis using off split by linarith
  qed
  have nlen: "?n \<le> MAX_SAFE_INTEGER" using u by (simp add: valid_view_def)
  let ?Y = "map (\<lambda>i. Yield (slice u (off + i * c) (off + i * c + c))
                      (take c (drop (off + i * c) (read h0 u)))) [0..<?k]"
  let ?gS = "g\<lparr>trace := trace g @ ?Y\<rparr>"
  have inrange: "off + i * c + c \<le> ?n" if "i < ?k" for i
  proof -
    have "Suc i * c \<le> ?k * c" using that by (intro mult_le_mono1) simp
    then show ?thesis using le by simp
  qed
  have "map (\<lambda>i. Yield (slice u (off + i * c) (off + i * c + c))
                 (read (heap g) (slice u (off + i * c) (off + i * c + c)))) [0..<?k] = ?Y"
    using inrange by (intro map_cong refl) (simp add: read_slice [OF pre u])
  then have sl: "slices c u off g = Some (?end, ?gS)"
    using slices_run [OF c(1) nlen le lt, of g] by simp
  have okS: "carry_ok h0 c ?gS" using ok by (simp add: carry_ok_def split: option.splits)
  have yS: "yields_ok ?gS"
  proof (rule yields_ok_frame [OF y])
    show "trace ?gS = trace g @ ?Y" by simp
    show "yield_ok ?gS e" if "e \<in> set ?Y" for e
    proof -
      from that obtain i where i: "i < ?k"
        and e: "e = Yield (slice u (off + i * c) (off + i * c + c))
                      (take c (drop (off + i * c) (read h0 u)))"
        by auto
      have v: "valid_view (heap g) (slice u (off + i * c) (off + i * c + c))"
        using inrange [OF i] by (intro valid_slice [OF pre u]) simp_all
      have r: "read (heap g) (slice u (off + i * c) (off + i * c + c))
          = take c (drop (off + i * c) (read h0 u))"
        using inrange [OF i] by (simp add: read_slice [OF pre u])
      have "arrayBuffer (slice u (off + i * c) (off + i * c + c)) \<noteq> arrayBuffer cb"
        if "carryBuffer g = Some cb" for cb
        using that ok cv(4) by (auto simp: carry_ok_def slice_def)
      then show ?thesis using v r by (simp add: e split: option.splits)
    qed
  qed (simp_all split: option.splits)
  show ?thesis
  proof (cases "?r = 0")
    case True
    then have "?end = ?n" using off split by linarith
    then have "save_remainder unbounded c u ?end ?gS = ?gS" by (simp add: save_remainder_def)
    then have d: "direct unbounded c u off g = Some ?gS" by (simp add: direct_def sl)
    have "carry_bytes ?gS = []" using empty by (simp add: carry_bytes_def split: option.splits)
    then have cb: "carry_bytes ?gS = drop ?end (read h0 u)"
      using \<open>?end = ?n\<close> cv(3) by simp
    have T: "?r \<noteq> 0 \<longrightarrow> carryBuffer ?gS = Some undefined" using True by simp
    have K: "\<forall>cb. carryBuffer g = Some cb \<longrightarrow> carryBuffer ?gS = Some cb" by simp
    show ?thesis
      using that [OF d _ okS yS _ _ T K] True empty cb by simp
  next
    case False
    then have o: "?end < ?n" using off split by linarith
    have rest: "?n - ?end < c" using lt c(1) by linarith
    have req: "?n - ?end = ?r" using off split by linarith
    have e0: "carryLength ?gS = 0" using empty by simp
    obtain t where
      1: "trace (save_remainder unbounded c u ?end ?gS) = trace ?gS @ [Copy (slice u ?end ?n) t 0]"
      and 2: "carry_ok h0 c (save_remainder unbounded c u ?end ?gS)"
      and 3: "yields_ok (save_remainder unbounded c u ?end ?gS)"
      and 4: "carryLength (save_remainder unbounded c u ?end ?gS) = ?n - ?end"
      and 5: "carry_bytes (save_remainder unbounded c u ?end ?gS) = drop ?end (read h0 u)"
      and 6: "carryBuffer (save_remainder unbounded c u ?end ?gS) = Some t"
      and 7: "\<forall>cb. carryBuffer ?gS = Some cb \<longrightarrow> t = cb"
      by (rule save_remainder_step [OF okS yS u e0 o rest])
    have d: "direct unbounded c u off g = Some (save_remainder unbounded c u ?end ?gS)"
      by (simp add: direct_def sl)
    have T: "?r \<noteq> 0 \<longrightarrow> carryBuffer (save_remainder unbounded c u ?end ?gS) = Some t"
      using 6 by simp
    have K: "\<forall>cb. carryBuffer g = Some cb \<longrightarrow>
        carryBuffer (save_remainder unbounded c u ?end ?gS) = Some cb"
      using 6 7 by simp
    show ?thesis
      using that [OF d _ 2 3 _ _ T K] False 1 4 5 req by simp
  qed
qed

lemma body_step:
  assumes ok: "carry_ok h0 c g" and y: "yields_ok g"
    and part: "isView part" and u: "valid_view h0 (toUint8Array part)"
    and c: "0 < c" "c \<le> MAX_SAFE_INTEGER"
  obtains g' s out t where "body unbounded c part g = Some g'"
    and "trace g' = trace g @
          unit_events c (carryLength g) (carry_bytes g) s out t (toUint8Array part)
            (read h0 (toUint8Array part))"
    and "length h0 \<le> arrayBuffer s" and "byteLength s = carryLength g"
    and "length h0 \<le> arrayBuffer out"
    and "carry_ok h0 c g'" and "yields_ok g'"
    and "carryLength g' = (carryLength g + byteLength (toUint8Array part)) mod c"
    and "carry_bytes g' =
          drop ((carryLength g + byteLength (toUint8Array part)) div c * c)
            (carry_bytes g @ read h0 (toUint8Array part))"
    and "0 < carryLength g \<longrightarrow>
          (\<exists>cb. carryBuffer g = Some cb \<and> arrayBuffer s = arrayBuffer cb \<and> byteOffset s = 0)"
    and "0 < carryLength g' \<longrightarrow> carryBuffer g' = Some t"
    and "\<forall>cb. carryBuffer g = Some cb \<longrightarrow> carryBuffer g' = Some cb"
proof -
  let ?u = "toUint8Array part"
  let ?n = "byteLength ?u"
  let ?cl = "carryLength g"
  let ?bs = "read h0 ?u"
  let ?fresh = "\<lparr>arrayBuffer = length h0, byteOffset = 0, byteLength = carryLength g\<rparr>"
  let ?s0 = "case carryBuffer g of None \<Rightarrow> ?fresh
             | Some cb \<Rightarrow> \<lparr>arrayBuffer = arrayBuffer cb, byteOffset = 0, byteLength = carryLength g\<rparr>"
  let ?t0 = "case carryBuffer g of None \<Rightarrow> ?fresh | Some cb \<Rightarrow> cb"
  have s0: "length h0 \<le> arrayBuffer ?s0" "byteLength ?s0 = carryLength g"
    "0 < carryLength g \<longrightarrow>
      (\<exists>cb. carryBuffer g = Some cb \<and> arrayBuffer ?s0 = arrayBuffer cb \<and> byteOffset ?s0 = 0)"
    "0 < carryLength g \<longrightarrow> carryBuffer g = Some ?t0"
    using ok by (auto simp: carry_ok_def split: option.splits)
  from ok have lt: "?cl < c" and pre: "take (length h0) (heap g) = h0" "length h0 \<le> length (heap g)"
    by (simp_all add: carry_ok_def)
  note cv = caller_view [OF pre u]
  have clen: "length (carry_bytes g) = ?cl" using ok by (rule carry_bytes_length)
  consider (empty) "?n = 0"
    | (more) "0 < ?n" "0 < ?cl" "?n < c - ?cl"
    | (merge) "0 < ?n" "0 < ?cl" "c - ?cl \<le> ?n"
    | (plain) "0 < ?n" "?cl = 0"
    by linarith
  then show ?thesis
  proof cases
    case empty
    have b: "body unbounded c part g = Some g" using part empty by (simp add: body_def)
    have F2: "0 < carryLength g \<longrightarrow> carryBuffer g = Some ?t0" by (rule s0(4))
    have F3: "\<forall>cb. carryBuffer g = Some cb \<longrightarrow> carryBuffer g = Some cb" by simp
    show ?thesis
      using that [OF b _ s0(1,2) _ ok y _ _ s0(3) F2 F3, of ?fresh] empty lt clen cv(3)
      by (simp add: unit_events_def)
  next
    case more
    obtain t where 1: "trace (accumulate ?u g) = trace g @ [Copy ?u t ?cl]"
      and 2: "carry_ok h0 c (accumulate ?u g)" and 3: "yields_ok (accumulate ?u g)"
      and 4: "carryLength (accumulate ?u g) = ?cl + ?n"
      and 5: "carry_bytes (accumulate ?u g) = carry_bytes g @ ?bs"
      and 6: "carryBuffer (accumulate ?u g) = Some t" and 7: "carryBuffer g = Some t"
      by (rule accumulate_step [OF ok y u more(2,3) c(2)])
    have b: "body unbounded c part g = Some (accumulate ?u g)"
      using part more by (simp add: body_def Let_def)
    have small: "?cl + ?n < c" using more by simp
    have F2: "0 < carryLength (accumulate ?u g) \<longrightarrow> carryBuffer (accumulate ?u g) = Some t"
      using 6 by simp
    have F3: "\<forall>cb. carryBuffer g = Some cb \<longrightarrow> carryBuffer (accumulate ?u g) = Some cb"
      using 6 7 by simp
    show ?thesis
      using that [OF b _ s0(1,2) _ 2 3 _ _ s0(3) F2 F3, of ?fresh] 1 4 5 more small
      by (simp add: unit_events_def)
  next
    case merge
    let ?needed = "c - ?cl"
    let ?g1 = "complete unbounded c ?u ?needed g"
    obtain s out where
      1: "trace ?g1 = trace g @ [Copy s out 0, Copy (slice ?u 0 ?needed) out ?cl,
                  Yield out (carry_bytes g @ take ?needed ?bs)]"
      and s: "length h0 \<le> arrayBuffer s" and sl: "byteLength s = ?cl"
      and out: "length h0 \<le> arrayBuffer out"
      and ok1: "carry_ok h0 c ?g1" and y1: "yields_ok ?g1" and e1: "carryLength ?g1 = 0"
      and s1: "\<exists>cb. carryBuffer g = Some cb \<and> arrayBuffer s = arrayBuffer cb \<and> byteOffset s = 0"
      and k1: "carryBuffer ?g1 = carryBuffer g"
      by (rule complete_step [OF ok y u merge(2,3) c(2)])
    obtain g' t where d: "direct unbounded c ?u ?needed ?g1 = Some g'"
      and tr: "trace g' = trace ?g1 @
           map (\<lambda>i. Yield (slice ?u (?needed + i * c) (?needed + i * c + c))
                      (take c (drop (?needed + i * c) ?bs)))
             [0..<(?n - ?needed) div c]
           @ (if (?n - ?needed) mod c = 0 then []
              else [Copy (slice ?u (?needed + (?n - ?needed) div c * c) ?n) t 0])"
      and ok': "carry_ok h0 c g'" and y': "yields_ok g'"
      and cl': "carryLength g' = (?n - ?needed) mod c"
      and cb': "carry_bytes g' = drop (?needed + (?n - ?needed) div c * c) ?bs"
      and t': "(?n - ?needed) mod c \<noteq> 0 \<longrightarrow> carryBuffer g' = Some t"
      and k': "\<forall>cb. carryBuffer ?g1 = Some cb \<longrightarrow> carryBuffer g' = Some cb"
      by (rule direct_step [OF ok1 y1 u e1 merge(3) c])
    have nothrow: "thrown ?g1 = None" using ok1 by (simp add: carry_ok_def)
    have b: "body unbounded c part g = Some g'"
      using part merge nothrow d by (simp add: body_def Let_def)
    have sum: "?cl + ?n = c + (?n - ?needed)" using merge lt by simp
    have q: "(?cl + ?n) div c = Suc ((?n - ?needed) div c)"
      and r: "(?cl + ?n) mod c = (?n - ?needed) mod c"
      using c(1) by (simp_all add: sum)
    have "drop ((?cl + ?n) div c * c) (carry_bytes g @ ?bs)
        = drop (?needed + (?n - ?needed) div c * c) ?bs"
      using lt clen by (simp add: q)
    moreover have F1: "0 < ?cl \<longrightarrow>
        (\<exists>cb. carryBuffer g = Some cb \<and> arrayBuffer s = arrayBuffer cb \<and> byteOffset s = 0)"
      using s1 by simp
    moreover have F2: "0 < carryLength g' \<longrightarrow> carryBuffer g' = Some t"
      using t' cl' by simp
    moreover have F3: "\<forall>cb. carryBuffer g = Some cb \<longrightarrow> carryBuffer g' = Some cb"
      using k' k1 by simp
    ultimately show ?thesis
      using that [OF b _ s sl out ok' y' _ _ F1 F2 F3] tr 1 cl' cb' merge r
      by (simp add: unit_events_def run_events_def)
  next
    case plain
    obtain g' t where d: "direct unbounded c ?u 0 g = Some g'"
      and tr: "trace g' = trace g @
           map (\<lambda>i. Yield (slice ?u (0 + i * c) (0 + i * c + c))
                      (take c (drop (0 + i * c) ?bs)))
             [0..<(?n - 0) div c]
           @ (if (?n - 0) mod c = 0 then []
              else [Copy (slice ?u (0 + (?n - 0) div c * c) ?n) t 0])"
      and ok': "carry_ok h0 c g'" and y': "yields_ok g'"
      and cl': "carryLength g' = (?n - 0) mod c"
      and cb': "carry_bytes g' = drop (0 + (?n - 0) div c * c) ?bs"
      and t': "(?n - 0) mod c \<noteq> 0 \<longrightarrow> carryBuffer g' = Some t"
      and k': "\<forall>cb. carryBuffer g = Some cb \<longrightarrow> carryBuffer g' = Some cb"
      by (rule direct_step [OF ok y u plain(2) le0 c])
    have b: "body unbounded c part g = Some g'"
      using part plain d by (simp add: body_def Let_def)
    have "carry_bytes g = []" using clen plain by simp
    moreover have F1: "0 < ?cl \<longrightarrow>
        (\<exists>cb. carryBuffer g = Some cb \<and> arrayBuffer ?fresh = arrayBuffer cb \<and> byteOffset ?fresh = 0)"
      using plain by simp
    moreover have F2: "0 < carryLength g' \<longrightarrow> carryBuffer g' = Some t"
      using t' cl' by simp
    ultimately show ?thesis
      using that [OF b _ _ _ _ ok' y' _ _ F1 F2 k', of ?fresh] tr cl' cb' plain
      by (simp add: unit_events_def run_events_def)
  qed
qed

section \<open>Lists of events\<close>

lemma yielded_map_Yield [simp]: "yielded (map (\<lambda>i. Yield (f i) (b i)) xs) = map f xs"
  by (induction xs) simp_all

lemma yielded_bytes_map_Yield [simp]: "yielded_bytes (map (\<lambda>i. Yield (f i) (b i)) xs) = map b xs"
  by (induction xs) simp_all

lemma input_copies_map_Yield [simp]: "input_copies n0 (map (\<lambda>i. Yield (f i) (b i)) xs) = 0"
  by (induction xs) simp_all

lemma carry_copies_map_Yield [simp]: "carry_copies n0 (map (\<lambda>i. Yield (f i) (b i)) xs) = 0"
  by (induction xs) simp_all

lemma touched_map_Yield:
  "(\<And>i. i \<in> set xs \<Longrightarrow> arrayBuffer (f i) < n0) \<Longrightarrow>
    touched n0 (map (\<lambda>i. Yield (f i) (b i)) xs) = map f xs"
  by (induction xs) simp_all

lemma tiles_from_append:
  "tiles_from a p q xs \<Longrightarrow> tiles_from a q stop ys \<Longrightarrow> tiles_from a p stop (xs @ ys)"
  by (induction xs arbitrary: p) simp_all

lemma tiles_from_slices:
  "0 < c \<Longrightarrow> tiles_from (arrayBuffer u) (byteOffset u + off) (byteOffset u + off + k * c)
     (map (\<lambda>i. slice u (off + i * c) (off + i * c + c)) [0..<k])"
proof (induction k)
  case 0
  then show ?case by simp
next
  case (Suc k)
  have "tiles_from (arrayBuffer u) (byteOffset u + off + k * c) (byteOffset u + off + Suc k * c)
      [slice u (off + k * c) (off + k * c + c)]"
    using Suc.prems by (simp add: slice_def add.assoc)
  with Suc.IH [OF Suc.prems]
  have "tiles_from (arrayBuffer u) (byteOffset u + off) (byteOffset u + off + Suc k * c)
      (map (\<lambda>i. slice u (off + i * c) (off + i * c + c)) [0..<k]
        @ [slice u (off + k * c) (off + k * c + c)])"
    by (rule tiles_from_append)
  then show ?case
    by (simp only: upt_Suc_append [OF le0] map_append list.map)
qed

lemma concat_chunks:
  "off + k * c \<le> length bs \<Longrightarrow>
    concat (map (\<lambda>i. take c (drop (off + i * c) bs)) [0..<k]) = take (k * c) (drop off bs)"
proof (induction k)
  case 0
  then show ?case by simp
next
  case (Suc k)
  then have IH: "concat (map (\<lambda>i. take c (drop (off + i * c) bs)) [0..<k]) = take (k * c) (drop off bs)"
    by simp
  have "take (Suc k * c) (drop off bs) = take (k * c + c) (drop off bs)"
    by (simp add: add.commute)
  also have "\<dots> = take (k * c) (drop off bs) @ take c (drop (k * c) (drop off bs))"
    by (rule take_add)
  also have "drop (k * c) (drop off bs) = drop (off + k * c) bs"
    by (simp add: add.commute)
  finally have "take (Suc k * c) (drop off bs)
      = take (k * c) (drop off bs) @ take c (drop (off + k * c) bs)" .
  moreover have "concat (map (\<lambda>i. take c (drop (off + i * c) bs)) [0..<Suc k])
      = concat (map (\<lambda>i. take c (drop (off + i * c) bs)) [0..<k]) @ take c (drop (off + k * c) bs)"
    by (simp only: upt_Suc_append [OF le0] map_append list.map concat_append concat.simps append_Nil2)
  ultimately show ?case by (simp only: IH)
qed

subsection \<open>The events of one iteration\<close>

lemma run_events_yielded:
  "yielded (run_events c u bs off t) =
     map (\<lambda>i. slice u (off + i * c) (off + i * c + c)) [0..<(byteLength u - off) div c]"
  by (simp add: run_events_def)

lemma run_events_yielded_bytes:
  "yielded_bytes (run_events c u bs off t) =
     map (\<lambda>i. take c (drop (off + i * c) bs)) [0..<(byteLength u - off) div c]"
  by (simp add: run_events_def)

lemma run_events_copies:
  "arrayBuffer u < n0 \<Longrightarrow> off \<le> byteLength u \<Longrightarrow>
     input_copies n0 (run_events c u bs off t) = (byteLength u - off) mod c"
  "carry_copies n0 (run_events c u bs off t) = 0 \<or> \<not> arrayBuffer u < n0"
proof -
  have split: "byteLength u - off = (byteLength u - off) div c * c + (byteLength u - off) mod c"
    by simp
  show "input_copies n0 (run_events c u bs off t) = (byteLength u - off) mod c"
    if "arrayBuffer u < n0" "off \<le> byteLength u"
  proof (cases "(byteLength u - off) mod c = 0")
    case True
    then show ?thesis by (simp add: run_events_def)
  next
    case False
    have "byteLength u - (off + (byteLength u - off) div c * c) = (byteLength u - off) mod c"
      using that(2) split by linarith
    then show ?thesis using that False by (simp add: run_events_def slice_def)
  qed
  show "carry_copies n0 (run_events c u bs off t) = 0 \<or> \<not> arrayBuffer u < n0"
    by (simp add: run_events_def slice_def)
qed

lemma run_events_tiles:
  assumes "arrayBuffer u < n0" and "off \<le> byteLength u" and "0 < c"
  shows "tiles_from (arrayBuffer u) (byteOffset u + off) (byteOffset u + byteLength u)
     (touched n0 (run_events c u bs off t))"
proof -
  let ?k = "(byteLength u - off) div c"
  let ?r = "(byteLength u - off) mod c"
  have split: "byteLength u - off = ?k * c + ?r" by simp
  have sl: "touched n0 (map (\<lambda>i. Yield (slice u (off + i * c) (off + i * c + c))
                (take c (drop (off + i * c) bs))) [0..<?k])
      = map (\<lambda>i. slice u (off + i * c) (off + i * c + c)) [0..<?k]"
    using assms(1) by (intro touched_map_Yield) (simp add: slice_def)
  have first: "tiles_from (arrayBuffer u) (byteOffset u + off) (byteOffset u + off + ?k * c)
      (map (\<lambda>i. slice u (off + i * c) (off + i * c + c)) [0..<?k])"
    using assms(3) by (rule tiles_from_slices)
  show ?thesis
  proof (cases "?r = 0")
    case True
    then have e: "byteOffset u + off + ?k * c = byteOffset u + byteLength u"
      using assms(2) split by linarith
    have "touched n0 (run_events c u bs off t)
        = map (\<lambda>i. slice u (off + i * c) (off + i * c + c)) [0..<?k]"
      using True by (simp add: run_events_def sl)
    then show ?thesis using first [unfolded e] by simp
  next
    case False
    have lt: "off + ?k * c < byteLength u" using False assms(2) split by linarith
    then have "tiles_from (arrayBuffer u) (byteOffset u + off + ?k * c) (byteOffset u + byteLength u)
        [slice u (off + ?k * c) (byteLength u)]"
      by (simp add: slice_def add.assoc)
    with first have "tiles_from (arrayBuffer u) (byteOffset u + off) (byteOffset u + byteLength u)
        (map (\<lambda>i. slice u (off + i * c) (off + i * c + c)) [0..<?k]
          @ [slice u (off + ?k * c) (byteLength u)])"
      by (rule tiles_from_append)
    moreover have "arrayBuffer (slice u (off + ?k * c) (byteLength u)) < n0"
      using assms(1) by (simp add: slice_def)
    then have "touched n0 (run_events c u bs off t)
        = map (\<lambda>i. slice u (off + i * c) (off + i * c + c)) [0..<?k]
          @ [slice u (off + ?k * c) (byteLength u)]"
      using False by (simp add: run_events_def sl)
    ultimately show ?thesis by simp
  qed
qed

lemma merge_div_mod:
  assumes "0 < c" and "cl < c" and "c - cl \<le> n"
  shows "(cl + n) div c = Suc ((n - (c - cl)) div c)" and "(cl + n) mod c = (n - (c - cl)) mod c"
proof -
  define m where "m = n - (c - cl)"
  have e: "cl + n = c + m" using assms by (simp add: m_def)
  have "(c + m) div c = Suc (m div c)" using assms(1) by simp
  then show "(cl + n) div c = Suc ((n - (c - cl)) div c)"
    by (simp only: e m_def)
  have "(c + m) mod c = m mod c" by simp
  then show "(cl + n) mod c = (n - (c - cl)) mod c"
    by (simp only: e m_def)
qed

lemma unit_events_yielded_bytes:
  assumes "0 < c" and "cl < c" and "length carry = cl" and "length bs = byteLength u"
  shows "yielded_bytes (unit_events c cl carry s out t u bs) =
     map (\<lambda>j. take c (drop (j * c) (carry @ bs))) [0..<(cl + byteLength u) div c]"
proof -
  let ?n = "byteLength u"
  consider (empty) "?n = 0"
    | (more) "0 < ?n" "0 < cl" "?n < c - cl"
    | (merge) "0 < ?n" "0 < cl" "c - cl \<le> ?n"
    | (plain) "0 < ?n" "cl = 0"
    by linarith
  then show ?thesis
  proof cases
    case empty
    then show ?thesis using assms by (simp add: unit_events_def)
  next
    case more
    then have "cl + ?n < c" by simp
    then show ?thesis using more by (simp add: unit_events_def)
  next
    case merge
    let ?k = "(?n - (c - cl)) div c"
    have q: "(cl + ?n) div c = Suc ?k" using assms(1,2) merge(3) by (rule merge_div_mod)
    have "map (\<lambda>j. take c (drop (j * c) (carry @ bs))) [0..<Suc ?k]
        = take c (carry @ bs) # map (\<lambda>i. take c (drop (Suc i * c) (carry @ bs))) [0..<?k]"
      by (simp only: map_upt_Suc_shift) simp
    also have "take c (carry @ bs) = carry @ take (c - cl) bs"
      using assms(2,3) by simp
    also have "map (\<lambda>i. take c (drop (Suc i * c) (carry @ bs))) [0..<?k]
        = map (\<lambda>i. take c (drop (c - cl + i * c) bs)) [0..<?k]"
      using assms(2,3) by (intro map_cong refl) (simp add: add.commute)
    finally show ?thesis
      using merge by (simp add: unit_events_def run_events_yielded_bytes q)
  next
    case plain
    then show ?thesis using assms by (simp add: unit_events_def run_events_yielded_bytes)
  qed
qed

lemma unit_events_yielded:
  assumes "0 < c" and "cl < c"
  shows "length (yielded (unit_events c cl carry s out t u bs)) = (cl + byteLength u) div c"
    and "j < (cl + byteLength u) div c \<Longrightarrow> cl \<le> j * c \<Longrightarrow>
      yielded (unit_events c cl carry s out t u bs) ! j = slice u (j * c - cl) (j * c - cl + c)"
proof -
  let ?n = "byteLength u"
  let ?V = "yielded (unit_events c cl carry s out t u bs)"
  consider (empty) "?n = 0"
    | (more) "0 < ?n" "0 < cl" "?n < c - cl"
    | (merge) "0 < ?n" "0 < cl" "c - cl \<le> ?n"
    | (plain) "0 < ?n" "cl = 0"
    by linarith
  then have "length ?V = (cl + ?n) div c
    \<and> (j < (cl + ?n) div c \<longrightarrow> cl \<le> j * c \<longrightarrow> ?V ! j = slice u (j * c - cl) (j * c - cl + c))"
  proof cases
    case empty
    then show ?thesis using assms by (simp add: unit_events_def)
  next
    case more
    then have "cl + ?n < c" by simp
    then show ?thesis using more by (simp add: unit_events_def)
  next
    case merge
    let ?k = "(?n - (c - cl)) div c"
    have q: "(cl + ?n) div c = Suc ?k" using assms(1,2) merge(3) by (rule merge_div_mod)
    have V: "?V = out # map (\<lambda>i. slice u (c - cl + i * c) (c - cl + i * c + c)) [0..<?k]"
      using merge by (simp add: unit_events_def run_events_yielded)
    have "?V ! j = slice u (j * c - cl) (j * c - cl + c)" if "j < Suc ?k" "cl \<le> j * c"
    proof (cases j)
      case 0
      then show ?thesis using that merge(2) by simp
    next
      case (Suc i)
      then have "i < ?k" using that by simp
      moreover have "Suc i * c - cl = c - cl + i * c" using assms(2) by simp
      ultimately show ?thesis by (simp only: V Suc nth_Cons_Suc nth_map_upt) simp
    qed
    then show ?thesis by (simp add: q) (simp add: V)
  next
    case plain
    then show ?thesis by (simp add: unit_events_def run_events_yielded)
  qed
  then show "length ?V = (cl + ?n) div c"
    and "j < (cl + ?n) div c \<Longrightarrow> cl \<le> j * c \<Longrightarrow> ?V ! j = slice u (j * c - cl) (j * c - cl + c)"
    by simp_all
qed

lemma unit_events_tiles:
  assumes "0 < c" and "cl < c" and "arrayBuffer u < n0"
    and "n0 \<le> arrayBuffer s" and "n0 \<le> arrayBuffer out"
  shows "tiles u (touched n0 (unit_events c cl carry s out t u bs))"
proof -
  let ?n = "byteLength u"
  consider (empty) "?n = 0"
    | (more) "0 < ?n" "0 < cl" "?n < c - cl"
    | (merge) "0 < ?n" "0 < cl" "c - cl \<le> ?n"
    | (plain) "0 < ?n" "cl = 0"
    by linarith
  then show ?thesis
  proof cases
    case empty
    then show ?thesis by (simp add: unit_events_def tiles_def)
  next
    case more
    then show ?thesis using assms(3) by (simp add: unit_events_def tiles_def)
  next
    case merge
    have rest: "tiles_from (arrayBuffer u) (byteOffset u + (c - cl)) (byteOffset u + ?n)
        (touched n0 (run_events c u bs (c - cl) t))"
      using assms(3) merge(3) assms(1) by (rule run_events_tiles)
    have "touched n0 (unit_events c cl carry s out t u bs)
        = slice u 0 (c - cl) # touched n0 (run_events c u bs (c - cl) t)"
      using merge assms(3,4,5) by (simp add: unit_events_def slice_def)
    then show ?thesis
      using rest assms(2) by (simp add: tiles_def) (simp add: slice_def)
  next
    case plain
    have "tiles_from (arrayBuffer u) (byteOffset u + 0) (byteOffset u + ?n)
        (touched n0 (run_events c u bs 0 t))"
      using assms(3) le0 assms(1) by (rule run_events_tiles)
    then show ?thesis using plain by (simp add: unit_events_def tiles_def)
  qed
qed

lemma unit_events_copies:
  assumes "0 < c" and "cl < c" and "arrayBuffer u < n0"
    and "n0 \<le> arrayBuffer s" and "byteLength s = cl"
  shows "carry_copies n0 (unit_events c cl carry s out t u bs) + (cl + byteLength u) mod c
       \<le> input_copies n0 (unit_events c cl carry s out t u bs) + cl"
    and "input_copies n0 (unit_events c cl carry s out t u bs) \<le> byteLength u"
proof -
  let ?n = "byteLength u"
  let ?E = "unit_events c cl carry s out t u bs"
  consider (empty) "?n = 0"
    | (more) "0 < ?n" "0 < cl" "?n < c - cl"
    | (merge) "0 < ?n" "0 < cl" "c - cl \<le> ?n"
    | (plain) "0 < ?n" "cl = 0"
    by linarith
  then have "carry_copies n0 ?E + (cl + ?n) mod c \<le> input_copies n0 ?E + cl
      \<and> input_copies n0 ?E \<le> ?n"
  proof cases
    case empty
    then show ?thesis using assms by (simp add: unit_events_def)
  next
    case more
    then have "cl + ?n < c" by simp
    then show ?thesis using more assms(3) by (simp add: unit_events_def)
  next
    case merge
    have r: "(cl + ?n) mod c = (?n - (c - cl)) mod c"
      using assms(1,2) merge(3) by (rule merge_div_mod)
    have i: "input_copies n0 (run_events c u bs (c - cl) t) = (?n - (c - cl)) mod c"
      using assms(3) merge(3) by (rule run_events_copies)
    have k: "carry_copies n0 (run_events c u bs (c - cl) t) = 0"
      using run_events_copies(2) [of n0 c u bs "c - cl" t] assms(3) by simp
    have "(?n - (c - cl)) mod c \<le> ?n - (c - cl)" by simp
    then have "c - cl + (?n - (c - cl)) mod c \<le> ?n" using merge(3) by linarith
    then show ?thesis
      using merge assms(3,4,5) by (simp add: unit_events_def i k r slice_def)
  next
    case plain
    have i: "input_copies n0 (run_events c u bs 0 t) = (?n - 0) mod c"
      using assms(3) le0 by (rule run_events_copies)
    have k: "carry_copies n0 (run_events c u bs 0 t) = 0"
      using run_events_copies(2) [of n0 c u bs 0 t] assms(3) by simp
    show ?thesis using plain by (simp add: unit_events_def i k)
  qed
  then show "carry_copies n0 ?E + (cl + ?n) mod c \<le> input_copies n0 ?E + cl"
    and "input_copies n0 ?E \<le> ?n"
    by simp_all
qed

section \<open>The whole loop\<close>

text \<open>
  An induction principle for the loop on valid units: a relation between the state
  before and the state after holds when it holds for no unit and is carried from the
  rest of the loop over one iteration.
\<close>

lemma for_of_invariant:
  assumes c: "0 < c" "c \<le> MAX_SAFE_INTEGER"
    and base: "\<And>g. carry_ok h0 c g \<Longrightarrow> yields_ok g \<Longrightarrow> P [] g g"
    and step: "\<And>part parts g g1 g' s out t.
        carry_ok h0 c g \<Longrightarrow> yields_ok g \<Longrightarrow> isView part \<Longrightarrow>
        valid_view h0 (toUint8Array part) \<Longrightarrow>
        trace g1 = trace g @
          unit_events c (carryLength g) (carry_bytes g) s out t (toUint8Array part)
            (read h0 (toUint8Array part)) \<Longrightarrow>
        length h0 \<le> arrayBuffer s \<Longrightarrow> length h0 \<le> arrayBuffer out \<Longrightarrow>
        carryLength g1 = (carryLength g + byteLength (toUint8Array part)) mod c \<Longrightarrow>
        carry_bytes g1 =
          drop ((carryLength g + byteLength (toUint8Array part)) div c * c)
            (carry_bytes g @ read h0 (toUint8Array part)) \<Longrightarrow>
        carry_ok h0 c g1 \<Longrightarrow> yields_ok g1 \<Longrightarrow> P parts g1 g' \<Longrightarrow>
        byteLength s = carryLength g \<Longrightarrow>
        (0 < carryLength g \<longrightarrow>
           (\<exists>cb. carryBuffer g = Some cb \<and> arrayBuffer s = arrayBuffer cb \<and> byteOffset s = 0)) \<Longrightarrow>
        (0 < carryLength g1 \<longrightarrow> carryBuffer g1 = Some t) \<Longrightarrow>
        (\<forall>cb. carryBuffer g = Some cb \<longrightarrow> carryBuffer g1 = Some cb) \<Longrightarrow>
        P (part # parts) g g'"
  shows "carry_ok h0 c g \<Longrightarrow> yields_ok g \<Longrightarrow> valid_units h0 parts \<Longrightarrow>
    \<exists>g'. for_of unbounded c parts g = Some g' \<and> carry_ok h0 c g' \<and> yields_ok g' \<and> P parts g g'"
proof (induction parts arbitrary: g)
  case Nil
  then show ?case using base by simp
next
  case (Cons part parts)
  from Cons.prems(3) have part: "isView part" and u: "valid_view h0 (toUint8Array part)"
    and rest: "valid_units h0 parts"
    by (simp_all add: valid_units_def)
  obtain g1 s out t where b: "body unbounded c part g = Some g1"
    and tr: "trace g1 = trace g @
          unit_events c (carryLength g) (carry_bytes g) s out t (toUint8Array part)
            (read h0 (toUint8Array part))"
    and s: "length h0 \<le> arrayBuffer s" and sl: "byteLength s = carryLength g"
    and out: "length h0 \<le> arrayBuffer out"
    and ok1: "carry_ok h0 c g1" and y1: "yields_ok g1"
    and cl1: "carryLength g1 = (carryLength g + byteLength (toUint8Array part)) mod c"
    and cb1: "carry_bytes g1 =
          drop ((carryLength g + byteLength (toUint8Array part)) div c * c)
            (carry_bytes g @ read h0 (toUint8Array part))"
    and f1: "0 < carryLength g \<longrightarrow>
          (\<exists>cb. carryBuffer g = Some cb \<and> arrayBuffer s = arrayBuffer cb \<and> byteOffset s = 0)"
    and f2: "0 < carryLength g1 \<longrightarrow> carryBuffer g1 = Some t"
    and f3: "\<forall>cb. carryBuffer g = Some cb \<longrightarrow> carryBuffer g1 = Some cb"
    by (rule body_step [OF Cons.prems(1,2) part u c])
  from Cons.IH [OF ok1 y1 rest] obtain g' where f: "for_of unbounded c parts g1 = Some g'"
    and ok': "carry_ok h0 c g'" and y': "yields_ok g'" and P: "P parts g1 g'"
    by blast
  have nothrow: "thrown g1 = None" using ok1 by (simp add: carry_ok_def)
  have "for_of unbounded c (part # parts) g = Some g'" using b f nothrow by simp
  moreover have "P (part # parts) g g'"
    by (rule step [OF Cons.prems(1,2) part u tr s out cl1 cb1 ok1 y1 P sl f1 f2 f3])
  ultimately show ?case using ok' y' by blast
qed

text \<open>The bytes: full chunks only, and what is pending is what was not yet yielded.\<close>

lemma for_of_bytes:
  assumes c: "0 < c" "c \<le> MAX_SAFE_INTEGER"
    and "carry_ok h0 c g" and "yields_ok g" and "valid_units h0 parts"
  shows "\<exists>g'. for_of unbounded c parts g = Some g' \<and> carry_ok h0 c g' \<and> yields_ok g' \<and>
    (\<exists>Y. yielded_bytes (trace g') = yielded_bytes (trace g) @ Y
         \<and> (\<forall>y\<in>set Y. length y = c)
         \<and> concat Y @ carry_bytes g' = carry_bytes g @ concat (unit_bytes h0 parts))"
proof (rule for_of_invariant [OF c _ _ assms(3-5)], goal_cases)
  case (1 g)
  then show ?case by (simp add: unit_bytes_def)
next
  case (2 part parts g g1 g' s out t)
  let ?u = "toUint8Array part"
  let ?bs = "read h0 ?u"
  let ?q = "(carryLength g + byteLength ?u) div c"
  let ?Y1 = "map (\<lambda>j. take c (drop (j * c) (carry_bytes g @ ?bs))) [0..<?q]"
  from 2(1) have lt: "carryLength g < c" and pre: "take (length h0) (heap g) = h0"
    "length h0 \<le> length (heap g)"
    by (simp_all add: carry_ok_def)
  have clen: "length (carry_bytes g) = carryLength g" using 2(1) by (rule carry_bytes_length)
  have blen: "length ?bs = byteLength ?u" using caller_view(3) [OF pre 2(4)] .
  have y1: "yielded_bytes (trace g1) = yielded_bytes (trace g) @ ?Y1"
    using unit_events_yielded_bytes [OF c(1) lt clen blen] by (simp add: 2(5))
  have fit: "?q * c \<le> length (carry_bytes g @ ?bs)"
    using clen blen by simp
  have all1: "\<forall>y\<in>set ?Y1. length y = c"
  proof
    fix y assume "y \<in> set ?Y1"
    then obtain j where j: "j < ?q" and y: "y = take c (drop (j * c) (carry_bytes g @ ?bs))"
      by auto
    have "Suc j * c \<le> ?q * c" using j by (intro mult_le_mono1) simp
    then have "j * c + c \<le> length (carry_bytes g @ ?bs)" using fit by simp
    then show "length y = c" by (simp add: y)
  qed
  have cat1: "concat ?Y1 @ carry_bytes g1 = carry_bytes g @ ?bs"
  proof -
    define xs where "xs = carry_bytes g @ ?bs"
    have "concat (map (\<lambda>j. take c (drop (0 + j * c) xs)) [0..<?q]) = take (?q * c) (drop 0 xs)"
      using fit by (intro concat_chunks) (simp add: xs_def)
    then have "concat (map (\<lambda>j. take c (drop (j * c) xs)) [0..<?q]) @ drop (?q * c) xs = xs"
      by simp
    then show ?thesis by (simp only: xs_def 2(9))
  qed
  from 2(12) obtain Y where Y: "yielded_bytes (trace g') = yielded_bytes (trace g1) @ Y"
    and allY: "\<forall>y\<in>set Y. length y = c"
    and catY: "concat Y @ carry_bytes g' = carry_bytes g1 @ concat (unit_bytes h0 parts)"
    by blast
  have "yielded_bytes (trace g') = yielded_bytes (trace g) @ (?Y1 @ Y)"
    by (simp add: Y y1)
  moreover have "\<forall>y\<in>set (?Y1 @ Y). length y = c"
    using all1 allY by auto
  moreover have "concat (?Y1 @ Y) @ carry_bytes g' = carry_bytes g @ concat (unit_bytes h0 (part # parts))"
  proof -
    have "concat (?Y1 @ Y) @ carry_bytes g' = concat ?Y1 @ (concat Y @ carry_bytes g')" by simp
    also have "\<dots> = (concat ?Y1 @ carry_bytes g1) @ concat (unit_bytes h0 parts)"
      by (simp only: catY append_assoc)
    also have "\<dots> = carry_bytes g @ concat (unit_bytes h0 (part # parts))"
      by (simp only: cat1) (simp add: unit_bytes_def)
    finally show ?thesis .
  qed
  ultimately show ?case by blast
qed

lemma start_ok: "0 < c \<Longrightarrow> carry_ok h c (start h)" "yields_ok (start h)"
  by (simp_all add: carry_ok_def yields_ok_def start_def)

lemma start_fields [simp]:
  "trace (start h) = []" "carryLength (start h) = 0" "carry_bytes (start h) = []"
  by (simp_all add: start_def carry_bytes_def)

lemma yield_ok_settled: "yield_ok g e \<Longrightarrow> settled (heap g) e"
  by (cases e) simp_all

lemma flush_run:
  assumes ok: "carry_ok h0 c g" and y: "yields_ok g" and c: "c \<le> MAX_SAFE_INTEGER"
  shows "thrown (flush g) = None" and "heap (flush g) = heap g"
    and "yielded_bytes (trace (flush g)) =
          yielded_bytes (trace g) @ (if carry_bytes g = [] then [] else [carry_bytes g])"
    and "\<forall>e\<in>set (trace (flush g)). settled (heap g) e"
proof -
  from ok have nothrow: "thrown g = None" and lt: "carryLength g < c"
    by (simp_all add: carry_ok_def)
  have clen: "length (carry_bytes g) = carryLength g" using ok by (rule carry_bytes_length)
  have old: "\<forall>e\<in>set (trace g). settled (heap g) e"
    using y by (auto simp: yields_ok_def intro: yield_ok_settled)
  have "thrown (flush g) = None \<and> heap (flush g) = heap g
      \<and> yielded_bytes (trace (flush g)) =
          yielded_bytes (trace g) @ (if carry_bytes g = [] then [] else [carry_bytes g])
      \<and> (\<forall>e\<in>set (trace (flush g)). settled (heap g) e)"
  proof (cases "carryLength g = 0")
    case True
    then have "flush g = g" using nothrow by (simp add: flush_def)
    then show ?thesis using nothrow old clen True by simp
  next
    case False
    with ok obtain cb where cb: "carryBuffer g = Some cb"
      and a1: "arrayBuffer cb < length (heap g)"
      and off: "byteOffset cb = 0" and cap: "byteLength cb = c"
      and full: "length (heap g ! arrayBuffer cb) = c"
      by (auto simp: carry_ok_def split: option.splits)
    let ?v = "\<lparr>arrayBuffer = arrayBuffer cb, byteOffset = 0, byteLength = carryLength g\<rparr>"
    have sub: "subarray cb 0 (carryLength g) = ?v"
      using lt by (simp add: subarray_def cap off min_def)
    have rd: "read (heap g) ?v = carry_bytes g"
      by (simp add: read_def carry_bytes_def cb)
    have eq: "flush g = g\<lparr>trace := trace g @ [Yield ?v (carry_bytes g)]\<rparr>"
      using False nothrow by (simp add: flush_def cb sub yield_def rd)
    have v: "valid_view (heap g) ?v"
      using a1 full lt c by (simp add: valid_view_def)
    have ne: "carry_bytes g \<noteq> []" using clen False by auto
    show ?thesis using nothrow old ne v rd by (simp add: eq)
  qed
  then show "thrown (flush g) = None" and "heap (flush g) = heap g"
    and "yielded_bytes (trace (flush g)) =
          yielded_bytes (trace g) @ (if carry_bytes g = [] then [] else [carry_bytes g])"
    and "\<forall>e\<in>set (trace (flush g)). settled (heap g) e"
    by simp_all
qed

lemma settled_read:
  "\<forall>e\<in>set es. settled h e \<Longrightarrow> map (read h) (yielded es) = yielded_bytes es"
  by (induction es rule: yielded.induct) simp_all


subsection \<open>Re-chunking a byte string\<close>

lemma rechunk_Nil [simp]: "rechunk c [] = []"
  by (subst rechunk.simps) simp

lemma rechunk_short: "0 < c \<Longrightarrow> xs \<noteq> [] \<Longrightarrow> length xs \<le> c \<Longrightarrow> rechunk c xs = [xs]"
  by (subst rechunk.simps) simp

lemma rechunk_full: "0 < c \<Longrightarrow> length y = c \<Longrightarrow> rechunk c (y @ xs) = y # rechunk c xs"
  by (subst rechunk.simps) auto

lemma rechunk_unique:
  assumes "0 < c" and "\<forall>y\<in>set Y. length y = c" and "length r < c"
  shows "Y @ (if r = [] then [] else [r]) = rechunk c (concat Y @ r)"
  using assms(2)
proof (induction Y)
  case Nil
  then show ?case using assms(1,3) by (simp add: rechunk_short)
next
  case (Cons y Y)
  then show ?case using assms(1) by (simp add: rechunk_full)
qed

lemma concat_rechunk: "0 < c \<Longrightarrow> concat (rechunk c xs) = xs"
proof (induction c xs rule: rechunk.induct)
  case (1 c xs)
  then show ?case by (subst rechunk.simps) simp
qed


subsection \<open>A run on valid units\<close>

lemma loop_run:
  assumes c: "0 < c" "c \<le> MAX_SAFE_INTEGER" and units: "valid_units h parts"
  obtains g where "for_of unbounded c parts (start h) = Some g"
    and "carry_ok h c g" and "yields_ok g"
    and "thrown (flush g) = None"
    and "yielded_bytes (trace (flush g)) = rechunk c (concat (unit_bytes h parts))"
    and "\<forall>e\<in>set (trace (flush g)). settled (heap (flush g)) e"
proof -
  from for_of_bytes [OF c start_ok(1) [OF c(1)] start_ok(2) units]
  obtain g Y where f: "for_of unbounded c parts (start h) = Some g"
    and ok: "carry_ok h c g" and y: "yields_ok g"
    and Y: "yielded_bytes (trace g) = Y" and all: "\<forall>y\<in>set Y. length y = c"
    and cat: "concat Y @ carry_bytes g = concat (unit_bytes h parts)"
    by auto
  note fl = flush_run [OF ok y c(2)]
  have "length (carry_bytes g) < c"
    using ok carry_bytes_length [OF ok] by (simp add: carry_ok_def)
  then have "Y @ (if carry_bytes g = [] then [] else [carry_bytes g])
      = rechunk c (concat Y @ carry_bytes g)"
    using c(1) all by (intro rechunk_unique)
  then have "yielded_bytes (trace (flush g)) = rechunk c (concat (unit_bytes h parts))"
    by (simp only: fl(3) Y cat)
  then show ?thesis
    using that [OF f ok y fl(1)] fl(2,4) by simp
qed

lemma chunkFrom_valid:
  assumes "iterator iterable = Some parts" and "\<not> is_string iterable"
    and "\<not> bad_chunkSize chunkSize" and "valid_units h parts"
  obtains g where "chunkFrom unbounded h iterable chunkSize = Some g" and "thrown g = None"
    and "yielded_bytes (trace g) = rechunk (size_of chunkSize) (concat (unit_bytes h parts))"
    and "\<forall>e\<in>set (trace g). settled (heap g) e"
proof -
  obtain g where f: "for_of unbounded (size_of chunkSize) parts (start h) = Some g"
    and 1: "thrown (flush g) = None"
    and 2: "yielded_bytes (trace (flush g)) = rechunk (size_of chunkSize) (concat (unit_bytes h parts))"
    and 3: "\<forall>e\<in>set (trace (flush g)). settled (heap (flush g)) e"
    by (rule loop_run [OF good_chunkSize [OF assms(3)] assms(4)])
  have "chunkFrom unbounded h iterable chunkSize = Some (flush g)"
    using assms(1-3) f by (simp add: chunkFrom_def)
  then show ?thesis using that 1 2 3 by blast
qed

lemma chunkFromAsync_valid:
  assumes "\<not> (asyncIterator iterable = None \<and> iterator iterable = None)"
    and "awaited_items iterable = parts"
    and "\<not> bad_chunkSize chunkSize" and "valid_units h parts"
  obtains g where "chunkFromAsync unbounded h iterable chunkSize = Some g" and "thrown g = None"
    and "yielded_bytes (trace g) = rechunk (size_of chunkSize) (concat (unit_bytes h parts))"
    and "\<forall>e\<in>set (trace g). settled (heap g) e"
proof -
  obtain g where f: "for_of unbounded (size_of chunkSize) parts (start h) = Some g"
    and 1: "thrown (flush g) = None"
    and 2: "yielded_bytes (trace (flush g)) = rechunk (size_of chunkSize) (concat (unit_bytes h parts))"
    and 3: "\<forall>e\<in>set (trace (flush g)). settled (heap (flush g)) e"
    by (rule loop_run [OF good_chunkSize [OF assms(3)] assms(4)])
  have "chunkFromAsync unbounded h iterable chunkSize = Some (flush g)"
    using assms(1-3) f by (auto simp: chunkFromAsync_def for_await_eq flushAsync_eq)
  then show ?thesis using that 1 2 3 by blast
qed



subsection \<open>A run that meets an item that is not a view\<close>

lemma for_of_append:
  "thrown g = None \<Longrightarrow> for_of mem c (xs @ ys) g =
     (case for_of mem c xs g of
        None \<Rightarrow> None
      | Some g' \<Rightarrow> if thrown g' \<noteq> None then Some g' else for_of mem c ys g')"
  by (induction xs arbitrary: g) (auto split: option.splits)

lemma for_of_item_error:
  assumes c: "0 < c" "c \<le> MAX_SAFE_INTEGER"
    and views: "views_in_heap h parts" and bad: "\<exists>x\<in>set parts. \<not> isView x"
  shows "\<exists>g. for_of unbounded c parts (start h) = Some g
    \<and> thrown g = Some (TypeError ''Expected iterable chunks to be Uint8Array or ArrayBufferView'')"
proof -
  from bad obtain pre x post where split: "parts = pre @ x # post"
    and x: "\<not> isView x" and pre: "\<forall>y\<in>set pre. isView y"
    using split_list_first_prop [of parts "\<lambda>x. \<not> isView x"] by auto
  have "valid_units h pre"
    using views pre by (simp add: views_in_heap_def valid_units_def split)
  then obtain g1 where f: "for_of unbounded c pre (start h) = Some g1" and ok: "carry_ok h c g1"
    by (rule loop_run [OF c])
  have nothrow: "thrown g1 = None" using ok by (simp add: carry_ok_def)
  have "for_of unbounded c parts (start h) =
      Some (throw (TypeError ''Expected iterable chunks to be Uint8Array or ArrayBufferView'') g1)"
    using f nothrow x by (simp add: split for_of_append start_def body_def throw_def)
  then show ?thesis by (simp add: throw_def)
qed

lemma flush_thrown: "thrown g \<noteq> None \<Longrightarrow> flush g = g"
  by (simp add: flush_def)

lemma chunkFrom_thrown:
  assumes "views_in_heap h (sync_items iterable)"
  shows "\<exists>g. chunkFrom unbounded h iterable chunkSize = Some g \<and> thrown g = chunkFrom_error iterable chunkSize"
proof -
  consider (source) "iterator iterable = None \<or> is_string iterable"
    | (size) "\<not> (iterator iterable = None \<or> is_string iterable)" "bad_chunkSize chunkSize"
    | (item) "\<not> (iterator iterable = None \<or> is_string iterable)" "\<not> bad_chunkSize chunkSize"
        "\<exists>x\<in>set (sync_items iterable). \<not> isView x"
    | (good) "\<not> (iterator iterable = None \<or> is_string iterable)" "\<not> bad_chunkSize chunkSize"
        "\<forall>x\<in>set (sync_items iterable). isView x"
    by blast
  then show ?thesis
  proof cases
    case source
    then show ?thesis by (auto simp: chunkFrom_def chunkFrom_error_def throw_def)
  next
    case size
    then show ?thesis by (auto simp: chunkFrom_def chunkFrom_error_def throw_def)
  next
    case item
    from item(1) obtain parts where it: "iterator iterable = Some parts" by auto
    then have parts: "sync_items iterable = parts" by (simp add: sync_items_def)
    obtain g where f: "for_of unbounded (size_of chunkSize) parts (start h) = Some g"
      and t: "thrown g = Some (TypeError ''Expected iterable chunks to be Uint8Array or ArrayBufferView'')"
      using for_of_item_error [OF good_chunkSize [OF item(2)], of h parts] assms item(3) parts
      by auto
    have "chunkFrom unbounded h iterable chunkSize = Some g"
      using item(1,2) it f t by (simp add: chunkFrom_def flush_thrown)
    then show ?thesis using item t by (simp add: chunkFrom_error_def)
  next
    case good
    from good(1) obtain parts where it: "iterator iterable = Some parts" by auto
    then have parts: "sync_items iterable = parts" by (simp add: sync_items_def)
    have units: "valid_units h parts"
      using assms good(3) by (simp add: parts views_in_heap_def valid_units_def)
    obtain g where "chunkFrom unbounded h iterable chunkSize = Some g" and "thrown g = None"
      using chunkFrom_valid [OF it _ good(2) units] good(1) by blast
    then show ?thesis using good by (simp add: chunkFrom_error_def)
  qed
qed

lemma chunkFromAsync_thrown:
  assumes "views_in_heap h (async_items iterable)"
  shows "\<exists>g. chunkFromAsync unbounded h iterable chunkSize = Some g
    \<and> thrown g = chunkFromAsync_error iterable chunkSize"
proof -
  let ?src = "asyncIterator iterable = None \<and> iterator iterable = None"
  consider (source) ?src
    | (size) "\<not> ?src" "bad_chunkSize chunkSize"
    | (item) "\<not> ?src" "\<not> bad_chunkSize chunkSize" "\<exists>x\<in>set (async_items iterable). \<not> isView x"
    | (good) "\<not> ?src" "\<not> bad_chunkSize chunkSize" "\<forall>x\<in>set (async_items iterable). isView x"
    by blast
  then show ?thesis
  proof cases
    case source
    then show ?thesis by (simp add: chunkFromAsync_def chunkFromAsync_error_def throw_def)
  next
    case size
    then show ?thesis by (auto simp: chunkFromAsync_def chunkFromAsync_error_def throw_def)
  next
    case item
    then have parts: "async_items iterable = awaited_items iterable"
      by (auto simp: async_items_def)
    obtain g where f: "for_of unbounded (size_of chunkSize) (awaited_items iterable) (start h) = Some g"
      and t: "thrown g = Some (TypeError ''Expected iterable chunks to be Uint8Array or ArrayBufferView'')"
      using for_of_item_error [OF good_chunkSize [OF item(2)], of h "awaited_items iterable"]
        assms item(3) parts
      by auto
    have "chunkFromAsync unbounded h iterable chunkSize = Some g"
      using item(1,2) f t by (auto simp: chunkFromAsync_def flush_thrown for_await_eq flushAsync_eq)
    then show ?thesis using item t by (simp add: chunkFromAsync_error_def)
  next
    case good
    then have parts: "async_items iterable = awaited_items iterable"
      by (auto simp: async_items_def)
    have units: "valid_units h (awaited_items iterable)"
      using assms good(3) by (simp add: parts views_in_heap_def valid_units_def)
    obtain g where "chunkFromAsync unbounded h iterable chunkSize = Some g" and "thrown g = None"
      using chunkFromAsync_valid [OF good(1) refl good(2) units] by blast
    then show ?thesis using good by (simp add: chunkFromAsync_error_def)
  qed
qed

lemma chunk_thrown:
  assumes "isView data \<longrightarrow> byteLength (toUint8Array data) \<le> MAX_SAFE_INTEGER"
  shows "\<exists>ys. chunk data chunkSize = Some (ys, chunk_error data chunkSize)"
proof (cases "isView data \<and> \<not> bad_chunkSize chunkSize")
  case True
  then show ?thesis
    using chunk_run [of data chunkSize] assms by (simp add: chunk_error_def)
next
  case False
  then show ?thesis by (auto simp: chunk_def chunk_error_def)
qed

lemma bad_chunkSize_iff:
  "bad_chunkSize chunkSize \<longleftrightarrow>
     \<not> (\<exists>n. 0 < n \<and> n \<le> MAX_SAFE_INTEGER \<and> chunkSize = Number (Finite (of_nat n)))"
proof
  assume bad: "bad_chunkSize chunkSize"
  show "\<not> (\<exists>n. 0 < n \<and> n \<le> MAX_SAFE_INTEGER \<and> chunkSize = Number (Finite (of_nat n)))"
  proof
    assume "\<exists>n. 0 < n \<and> n \<le> MAX_SAFE_INTEGER \<and> chunkSize = Number (Finite (of_nat n))"
    then obtain n where n: "0 < n" "n \<le> MAX_SAFE_INTEGER"
      and v: "chunkSize = Number (Finite (of_nat n))" by blast
    have "(of_nat n :: rat) \<le> of_nat MAX_SAFE_INTEGER" using n(2) by (simp only: of_nat_le_iff)
    also have "(of_nat MAX_SAFE_INTEGER :: rat) = 2 ^ 53 - 1"
      by (simp add: MAX_SAFE_INTEGER_def of_nat_diff)
    finally have "\<not> bad_chunkSize chunkSize"
      using n(1) by (simp add: v bad_chunkSize_def)
    then show False using bad by simp
  qed
next
  assume no: "\<not> (\<exists>n. 0 < n \<and> n \<le> MAX_SAFE_INTEGER \<and> chunkSize = Number (Finite (of_nat n)))"
  show "bad_chunkSize chunkSize"
  proof (rule ccontr)
    assume good: "\<not> bad_chunkSize chunkSize"
    then obtain q where v: "chunkSize = Number (Finite q)" and int: "of_int \<lfloor>q\<rfloor> = q" and pos: "0 < q"
      unfolding bad_chunkSize_def
      by (cases chunkSize rule: isSafeInteger.cases) auto
    have fpos: "0 < \<lfloor>q\<rfloor>" using pos int by (metis of_int_0_less_iff)
    then have "of_nat (nat \<lfloor>q\<rfloor>) = q" using int by simp
    then have "chunkSize = Number (Finite (of_nat (size_of chunkSize)))" by (simp add: v)
    then show False using no good_chunkSize [OF good] by blast
  qed
qed

subsection \<open>What a run touches and copies\<close>

lemma for_of_touched:
  assumes c: "0 < c" "c \<le> MAX_SAFE_INTEGER"
    and "carry_ok h0 c g" and "yields_ok g" and "valid_units h0 parts"
  shows "\<exists>g'. for_of unbounded c parts g = Some g' \<and> carry_ok h0 c g' \<and> yields_ok g' \<and>
    (\<exists>T. touched (length h0) (trace g') = touched (length h0) (trace g) @ T
         \<and> tiling (map toUint8Array parts) T)"
proof (rule for_of_invariant [OF c _ _ assms(3-5)], goal_cases)
  case (1 g)
  then show ?case by simp
next
  case (2 part parts g g1 g' s out t)
  let ?u = "toUint8Array part"
  let ?T1 = "touched (length h0)
      (unit_events c (carryLength g) (carry_bytes g) s out t ?u (read h0 ?u))"
  from 2(1) have lt: "carryLength g < c" by (simp add: carry_ok_def)
  have ub: "arrayBuffer ?u < length h0" using 2(4) by (simp add: valid_view_def)
  have t1: "tiles ?u ?T1"
    using c(1) lt ub 2(6,7) by (rule unit_events_tiles)
  from 2(12) obtain T where T: "touched (length h0) (trace g') = touched (length h0) (trace g1) @ T"
    and til: "tiling (map toUint8Array parts) T"
    by blast
  have "touched (length h0) (trace g') = touched (length h0) (trace g) @ (?T1 @ T)"
    by (simp add: T 2(5))
  moreover have "tiling (map toUint8Array (part # parts)) (?T1 @ T)"
    using t1 til by (auto intro!: bexI [of _ "length ?T1"])
  ultimately show ?case by blast
qed

lemma for_of_copies:
  assumes c: "0 < c" "c \<le> MAX_SAFE_INTEGER"
    and "carry_ok h0 c g" and "yields_ok g" and "valid_units h0 parts"
  shows "\<exists>g'. for_of unbounded c parts g = Some g' \<and> carry_ok h0 c g' \<and> yields_ok g' \<and>
    (carry_copies (length h0) (trace g') + carryLength g' + input_copies (length h0) (trace g)
       \<le> input_copies (length h0) (trace g') + carry_copies (length h0) (trace g) + carryLength g
     \<and> input_copies (length h0) (trace g')
       \<le> input_copies (length h0) (trace g) + sum_list (map (\<lambda>x. byteLength (toUint8Array x)) parts))"
proof (rule for_of_invariant [OF c _ _ assms(3-5)], goal_cases)
  case (1 g)
  then show ?case by simp
next
  case (2 part parts g g1 g' s out t)
  let ?u = "toUint8Array part"
  let ?E = "unit_events c (carryLength g) (carry_bytes g) s out t ?u (read h0 ?u)"
  from 2(1) have lt: "carryLength g < c" by (simp add: carry_ok_def)
  have ub: "arrayBuffer ?u < length h0" using 2(4) by (simp add: valid_view_def)
  have bal: "carry_copies (length h0) ?E + (carryLength g + byteLength ?u) mod c
       \<le> input_copies (length h0) ?E + carryLength g"
    and inp: "input_copies (length h0) ?E \<le> byteLength ?u"
    using c(1) lt ub 2(6) 2(13) by (rule unit_events_copies)+
  show ?case
    using 2(12) bal inp by (simp add: 2(5) 2(8))
qed

lemma flush_trace:
  assumes "carry_ok h0 c g"
  shows "touched (length h0) (trace (flush g)) = touched (length h0) (trace g)"
    and "input_copies (length h0) (trace (flush g)) = input_copies (length h0) (trace g)"
    and "carry_copies (length h0) (trace (flush g)) = carry_copies (length h0) (trace g)"
  using assms
  by (auto simp: flush_def carry_ok_def yield_def subarray_def split: option.splits)

lemma loop_copies:
  assumes c: "0 < c" "c \<le> MAX_SAFE_INTEGER" and units: "valid_units h parts"
  obtains g where "for_of unbounded c parts (start h) = Some g"
    and "tiling (map toUint8Array parts) (touched (length h) (trace (flush g)))"
    and "carry_copies (length h) (trace (flush g)) \<le> input_copies (length h) (trace (flush g))"
    and "input_copies (length h) (trace (flush g))
          \<le> sum_list (map (\<lambda>x. byteLength (toUint8Array x)) parts)"
proof -
  from for_of_touched [OF c start_ok(1) [OF c(1)] start_ok(2) units]
  obtain g where f: "for_of unbounded c parts (start h) = Some g" and ok: "carry_ok h c g"
    and t: "tiling (map toUint8Array parts) (touched (length h) (trace g))"
    by auto
  from for_of_copies [OF c start_ok(1) [OF c(1)] start_ok(2) units] f
  have k: "carry_copies (length h) (trace g) + carryLength g \<le> input_copies (length h) (trace g)"
    and i: "input_copies (length h) (trace g)
          \<le> sum_list (map (\<lambda>x. byteLength (toUint8Array x)) parts)"
    by auto
  show ?thesis
    using that [OF f] t k i by (simp add: flush_trace [OF ok])
qed

subsection \<open>Where the chunks of a run lie\<close>

lemma unit_start_simps [simp]:
  "unit_start parts 0 = 0"
  "unit_start (part # parts) (Suc i) = byteLength (toUint8Array part) + unit_start parts i"
  by (simp_all add: unit_start_def)

lemma total_bytes_simps [simp]:
  "total_bytes [] = 0"
  "total_bytes (part # parts) = byteLength (toUint8Array part) + total_bytes parts"
  by (simp_all add: total_bytes_def)

lemma for_of_positions:
  assumes c: "0 < c" "c \<le> MAX_SAFE_INTEGER"
    and "carry_ok h0 c g" and "yields_ok g" and "valid_units h0 parts"
  shows "\<exists>g'. for_of unbounded c parts g = Some g' \<and> carry_ok h0 c g' \<and> yields_ok g' \<and>
    (\<exists>V. yielded (trace g') = yielded (trace g) @ V
       \<and> length V = (carryLength g + total_bytes parts) div c
       \<and> (\<forall>i<length parts. \<forall>k.
             carryLength g + unit_start parts i \<le> k * c
             \<and> k * c + c \<le> carryLength g + unit_start parts i + byteLength (toUint8Array (parts ! i))
             \<longrightarrow> k < length V
               \<and> V ! k = slice (toUint8Array (parts ! i))
                            (k * c - (carryLength g + unit_start parts i))
                            (k * c - (carryLength g + unit_start parts i) + c)))"
proof (rule for_of_invariant [OF c _ _ assms(3-5)], goal_cases)
  case (1 g)
  then show ?case by (simp add: carry_ok_def)
next
  case (2 part parts g g1 g' s out t)
  let ?u = "toUint8Array part"
  let ?n = "byteLength ?u"
  let ?L = "carryLength g"
  let ?V1 = "yielded (unit_events c ?L (carry_bytes g) s out t ?u (read h0 ?u))"
  define q where "q = (?L + ?n) div c"
  define r where "r = (?L + ?n) mod c"
  from 2(1) have lt: "?L < c" by (simp add: carry_ok_def)
  have len1: "length ?V1 = q" unfolding q_def using c(1) lt by (rule unit_events_yielded)
  have nth1: "?V1 ! j = slice ?u (j * c - ?L) (j * c - ?L + c)" if "j < q" "?L \<le> j * c" for j
    using c(1) lt that unfolding q_def by (rule unit_events_yielded)
  have split: "?L + ?n = q * c + r" by (simp add: q_def r_def)
  have rc: "r < c" using c(1) by (simp add: r_def)
  from 2(12) obtain V2 where V2: "yielded (trace g') = yielded (trace g1) @ V2"
    and len2: "length V2 = (carryLength g1 + total_bytes parts) div c"
    and nth2: "\<And>i k. i < length parts \<Longrightarrow>
        carryLength g1 + unit_start parts i \<le> k * c \<Longrightarrow>
        k * c + c \<le> carryLength g1 + unit_start parts i + byteLength (toUint8Array (parts ! i)) \<Longrightarrow>
        k < length V2
        \<and> V2 ! k = slice (toUint8Array (parts ! i))
                     (k * c - (carryLength g1 + unit_start parts i))
                     (k * c - (carryLength g1 + unit_start parts i) + c)"
    by blast
  have L1: "carryLength g1 = r" unfolding r_def by (rule 2(8))
  have V: "yielded (trace g') = yielded (trace g) @ (?V1 @ V2)"
    by (simp add: V2 2(5))
  have len: "length (?V1 @ V2) = (?L + total_bytes (part # parts)) div c"
  proof -
    have "(q * c + r + total_bytes parts) div c = q + (r + total_bytes parts) div c"
      using c(1) by (simp add: add.assoc)
    then have "(?L + ?n + total_bytes parts) div c = q + (r + total_bytes parts) div c"
      by (simp only: split)
    then show ?thesis by (simp add: len1 len2 L1 add.assoc)
  qed
  have pos: "k < length (?V1 @ V2)
      \<and> (?V1 @ V2) ! k = slice (toUint8Array ((part # parts) ! i))
                   (k * c - (?L + unit_start (part # parts) i))
                   (k * c - (?L + unit_start (part # parts) i) + c)"
    if i: "i < length (part # parts)"
      and lo: "?L + unit_start (part # parts) i \<le> k * c"
      and hi: "k * c + c \<le> ?L + unit_start (part # parts) i
                 + byteLength (toUint8Array ((part # parts) ! i))"
    for i k
  proof (cases i)
    case 0
    have lo0: "?L \<le> k * c" and hi0: "Suc k * c \<le> ?L + ?n" using lo hi 0 by simp_all
    have "Suc k \<le> q" unfolding q_def using hi0 c(1) by (simp only: less_eq_div_iff_mult_less_eq)
    then have k: "k < q" by simp
    then show ?thesis
      using nth1 [OF k lo0] by (simp add: 0 nth_append len1)
  next
    case (Suc i')
    let ?st = "unit_start parts i'"
    let ?len = "byteLength (toUint8Array (parts ! i'))"
    have i': "i' < length parts" using i Suc by simp
    have st: "unit_start (part # parts) i = ?n + ?st" by (simp add: Suc)
    have it: "(part # parts) ! i = parts ! i'" by (simp add: Suc)
    have lo': "q * c + r + ?st \<le> k * c" using lo split unfolding st by linarith
    have hi': "k * c + c \<le> q * c + r + ?st + ?len" using hi split unfolding st it by linarith
    have "q * c \<le> k * c" using lo' by linarith
    then have qk: "q \<le> k" using c(1) by simp
    define k' where "k' = k - q"
    have k: "k = q + k'" using qk by (simp add: k'_def)
    have kc: "k * c = q * c + k' * c" by (simp add: k add_mult_distrib)
    have lo2: "carryLength g1 + ?st \<le> k' * c" using lo' kc unfolding L1 by linarith
    have hi2: "k' * c + c \<le> carryLength g1 + ?st + ?len" using hi' kc unfolding L1 by linarith
    from nth2 [OF i' lo2 hi2] have a: "k' < length V2"
      and b: "V2 ! k' = slice (toUint8Array (parts ! i')) (k' * c - (carryLength g1 + ?st))
                     (k' * c - (carryLength g1 + ?st) + c)"
      by simp_all
    have off: "k * c - (?L + unit_start (part # parts) i) = k' * c - (carryLength g1 + ?st)"
      using split kc lo' unfolding st L1 by linarith
    have "(?V1 @ V2) ! k = V2 ! k'" by (simp add: nth_append len1 k)
    then show ?thesis using a b unfolding off it by (simp add: len1 k)
  qed
  show ?case
    using V len pos by blast
qed

subsection \<open>Views that share storage\<close>

lemma slice_shares:
  assumes "valid_view h u" and "a \<le> b" and "b \<le> byteLength u"
  shows "shares h u (slice u a b)"
proof -
  have buf: "arrayBuffer u < length h"
    and fit: "byteOffset u + byteLength u \<le> length (h ! arrayBuffer u)"
    using assms(1) by (simp_all add: valid_view_def)
  have "read_byte (write_byte h u (a + j) x) (slice u a b) j = Some x" if "j < b - a" for j x
  proof -
    have "a + j < byteLength u" using that assms(3) by simp
    moreover have "byteOffset u + (a + j) < length (h ! arrayBuffer u)"
      using calculation fit by simp
    ultimately show ?thesis
      using that buf by (simp add: read_byte_def write_byte_def slice_def add.assoc)
  qed
  then show ?thesis
    using assms(2,3) by (simp add: shares_def slice_def)
qed

lemma flush_yielded:
  "\<exists>ws. yielded (trace (flush g)) = yielded (trace g) @ ws"
  by (auto simp: flush_def yield_def throw_def split: option.splits)

lemma loop_positions:
  assumes c: "0 < c" "c \<le> MAX_SAFE_INTEGER" and units: "valid_units h parts"
  obtains g where "for_of unbounded c parts (start h) = Some g"
    and "\<And>i k. i < length parts \<Longrightarrow> unit_start parts i \<le> k * c \<Longrightarrow>
          k * c + c \<le> unit_start parts i + byteLength (toUint8Array (parts ! i)) \<Longrightarrow>
          k < length (yielded (trace (flush g)))
          \<and> yielded (trace (flush g)) ! k =
              slice (toUint8Array (parts ! i)) (k * c - unit_start parts i)
                (k * c - unit_start parts i + c)
          \<and> shares (heap (flush g)) (toUint8Array (parts ! i)) (yielded (trace (flush g)) ! k)"
proof -
  from for_of_positions [OF c start_ok(1) [OF c(1)] start_ok(2) units]
  obtain g V where f: "for_of unbounded c parts (start h) = Some g" and ok: "carry_ok h c g"
    and y: "yields_ok g" and V: "yielded (trace g) = V"
    and pos: "\<And>i k. i < length parts \<Longrightarrow> unit_start parts i \<le> k * c \<Longrightarrow>
          k * c + c \<le> unit_start parts i + byteLength (toUint8Array (parts ! i)) \<Longrightarrow>
          k < length V
          \<and> V ! k = slice (toUint8Array (parts ! i)) (k * c - unit_start parts i)
                (k * c - unit_start parts i + c)"
    by auto
  obtain ws where ws: "yielded (trace (flush g)) = V @ ws"
    using flush_yielded [of g] V by auto
  have heap: "heap (flush g) = heap g" by (rule flush_run(2) [OF ok y c(2)])
  from ok have pre: "take (length h) (heap g) = h" "length h \<le> length (heap g)"
    by (simp_all add: carry_ok_def)
  have "k < length (yielded (trace (flush g)))
      \<and> yielded (trace (flush g)) ! k =
          slice (toUint8Array (parts ! i)) (k * c - unit_start parts i)
            (k * c - unit_start parts i + c)
      \<and> shares (heap (flush g)) (toUint8Array (parts ! i)) (yielded (trace (flush g)) ! k)"
    if i: "i < length parts" and lo: "unit_start parts i \<le> k * c"
      and hi: "k * c + c \<le> unit_start parts i + byteLength (toUint8Array (parts ! i))"
    for i k
  proof -
    let ?u = "toUint8Array (parts ! i)"
    from pos [OF i lo hi] have k: "k < length V"
      and v: "V ! k = slice ?u (k * c - unit_start parts i) (k * c - unit_start parts i + c)"
      by simp_all
    have "valid_view h ?u" using units i by (simp add: valid_units_def)
    then have valid: "valid_view (heap g) ?u" by (rule caller_view(2) [OF pre])
    have "k * c - unit_start parts i + c \<le> byteLength ?u" using lo hi by linarith
    then have "shares (heap g) ?u (slice ?u (k * c - unit_start parts i) (k * c - unit_start parts i + c))"
      using valid by (intro slice_shares) simp_all
    then show ?thesis using k v by (simp add: ws nth_append heap)
  qed
  then show ?thesis using that [OF f] by blast
qed

lemma chunk_shares:
  assumes "isView data" and "\<not> bad_chunkSize chunkSize" and "valid_view h (toUint8Array data)"
  obtains ys where "chunk data chunkSize = Some (ys, None)"
    and "\<And>k. k < length ys \<Longrightarrow>
          ys ! k = slice (toUint8Array data) (k * size_of chunkSize)
                     (min (k * size_of chunkSize + size_of chunkSize) (byteLength (toUint8Array data)))
          \<and> shares h (toUint8Array data) (ys ! k)"
proof -
  let ?u = "toUint8Array data"
  let ?c = "size_of chunkSize"
  let ?n = "(byteLength ?u + ?c - 1) div ?c"
  let ?ys = "map (\<lambda>k. slice ?u (k * ?c) (min (k * ?c + ?c) (byteLength ?u))) [0..<?n]"
  have c: "0 < ?c" using assms(2) by (rule good_chunkSize)
  have len: "byteLength ?u \<le> MAX_SAFE_INTEGER" using assms(3) by (simp add: valid_view_def)
  have run: "chunk data chunkSize = Some (?ys, None)"
    by (rule chunk_run [OF assms(1,2) len])
  have "?ys ! k = slice ?u (k * ?c) (min (k * ?c + ?c) (byteLength ?u)) \<and> shares h ?u (?ys ! k)"
    if "k < length ?ys" for k
  proof -
    have k: "k < ?n" using that by simp
    then have "k * ?c < byteLength ?u" using ceil_div_less [OF c] by simp
    then have "shares h ?u (slice ?u (k * ?c) (min (k * ?c + ?c) (byteLength ?u)))"
      using assms(3) by (intro slice_shares) simp_all
    then show ?thesis using k by simp
  qed
  then show ?thesis using that [OF run] by blast
qed

section \<open>Runs on a runtime that may refuse an allocation\<close>

lemma typed_set_trace: "\<exists>es. trace (typed_set t s off g) = trace g @ es"
  by (auto simp: typed_set_def throw_def Let_def split: option.splits)

lemma complete_trace: "\<exists>es. trace (complete mem c u n g) = trace g @ es"
proof (cases "new_Uint8Array mem c (heap g)")
  case (Inl e)
  then show ?thesis by (simp add: complete_def throw_def)
next
  case (Inr r)
  obtain out h where r: "r = (out, h)" by (cases r)
  show ?thesis
  proof (cases "carryBuffer g")
    case None
    then show ?thesis by (simp add: complete_def Inr r throw_def)
  next
    case (Some cb)
    let ?g1 = "g\<lparr>heap := h\<rparr>"
    let ?g2 = "typed_set (Some out) (subarray cb 0 (carryLength ?g1)) 0 ?g1"
    let ?g3 = "typed_set (Some out) (subarray u 0 n) (carryLength ?g2) ?g2"
    obtain es2 where 2: "trace ?g2 = trace g @ es2"
      using typed_set_trace [of "Some out" "subarray cb 0 (carryLength ?g1)" 0 ?g1] by auto
    obtain es3 where 3: "trace ?g3 = trace ?g2 @ es3"
      using typed_set_trace [of "Some out" "subarray u 0 n" "carryLength ?g2" ?g2] by auto
    show ?thesis
      using 2 3 by (simp add: complete_def Inr r Some Let_def yield_def)
  qed
qed

lemma slices_trace:
  assumes "slices c u off g = Some r"
  shows "\<exists>es. trace (snd r) = trace g @ es"
  by (rule slices.raw_induct
        [where P = "\<lambda>c u off g r. \<exists>es. trace (snd r) = trace g @ es", OF _ assms])
     (fastforce simp: yield_def split: if_splits)

lemma save_remainder_trace: "\<exists>es. trace (save_remainder mem c u off g) = trace g @ es"
proof -
  have "\<exists>es. trace (typed_set t s 0 g') = trace g @ es" if "trace g' = trace g" for t s g'
    using typed_set_trace [of t s 0 g'] that by simp
  then show ?thesis
    by (auto simp: save_remainder_def new_Uint8Array_def throw_def Let_def
        split: option.splits sum.splits)
qed

lemma complete_any:
  "complete mem c u n g = complete unbounded c u n g
   \<or> complete mem c u n g = throw allocation_failed g"
  by (simp add: complete_def new_Uint8Array_def unbounded_def)

lemma save_remainder_any:
  "thrown g = None \<Longrightarrow>
   save_remainder mem c u off g = save_remainder unbounded c u off g
   \<or> save_remainder mem c u off g = throw allocation_failed g"
  by (simp add: save_remainder_def new_Uint8Array_def unbounded_def throw_def split: option.splits)

lemma direct_trace:
  assumes "direct mem c u off g = Some g'"
  shows "\<exists>es. trace g' = trace g @ es"
proof -
  from assms obtain off' gS where sl: "slices c u off g = Some (off', gS)"
    and g': "g' = save_remainder mem c u off' gS"
    by (auto simp: direct_def)
  obtain es1 where 1: "trace gS = trace g @ es1" using slices_trace [OF sl] by auto
  obtain es2 where 2: "trace g' = trace gS @ es2"
    using save_remainder_trace [of mem c u off' gS] g' by auto
  show ?thesis using 1 2 by simp
qed

lemma body_trace:
  assumes "body mem c part g = Some g'"
  shows "\<exists>es. trace g' = trace g @ es"
proof -
  let ?u = "toUint8Array part"
  let ?g1 = "complete mem c ?u (c - carryLength g) g"
  obtain es1 where 1: "trace ?g1 = trace g @ es1"
    using complete_trace [of mem c ?u "c - carryLength g" g] by auto
  have d: "\<exists>es. trace g' = trace g @ es" if "direct mem c ?u off ?g1 = Some g'" for off
    using direct_trace [OF that] 1 by auto
  have acc: "\<exists>es. trace (accumulate ?u g) = trace g @ es"
    using typed_set_trace [of "carryBuffer g" ?u "carryLength g" g]
    by (auto simp: accumulate_def Let_def)
  show ?thesis
    using assms 1 d acc direct_trace [of mem c ?u 0 g g']
    by (auto simp: body_def Let_def throw_def split: if_splits)
qed

lemma for_of_trace:
  "for_of mem c parts g = Some g' \<Longrightarrow> \<exists>es. trace g' = trace g @ es"
proof (induction parts arbitrary: g)
  case Nil
  then show ?case by simp
next
  case (Cons part parts)
  from Cons.prems obtain g1 where b: "body mem c part g = Some g1"
    and rest: "g' = g1 \<or> for_of mem c parts g1 = Some g'"
    by (auto split: option.splits if_splits)
  obtain es1 where 1: "trace g1 = trace g @ es1" using body_trace [OF b] by auto
  from rest show ?case
  proof
    assume "g' = g1"
    then show ?thesis using 1 by simp
  next
    assume "for_of mem c parts g1 = Some g'"
    from Cons.IH [OF this] obtain es2 where "trace g' = trace g1 @ es2" by auto
    then show ?thesis using 1 by simp
  qed
qed

lemma flush_extends: "\<exists>es. trace (flush g) = trace g @ es"
  by (auto simp: flush_def yield_def throw_def split: option.splits)

text \<open>
  A run on any runtime goes as the run on the unbounded one does, up to the first
  allocation that is refused; there it ends with the error of the runtime.
\<close>

lemma direct_any:
  assumes "direct unbounded c u off g = Some gU" and "thrown g = None"
  shows "\<exists>g'. direct mem c u off g = Some g'
    \<and> (g' = gU \<or> thrown g' = Some allocation_failed \<and> (\<exists>es. trace gU = trace g' @ es))"
proof -
  from assms(1) obtain off' gS where sl: "slices c u off g = Some (off', gS)"
    and gU: "gU = save_remainder unbounded c u off' gS"
    by (auto simp: direct_def)
  have "thrown gS = thrown g"
    by (rule slices.raw_induct
          [where P = "\<lambda>c u off g r. thrown (snd r) = thrown g", OF _ sl, simplified])
       (auto simp: yield_def split: if_splits)
  then have nothrow: "thrown gS = None" using assms(2) by simp
  have d: "direct mem c u off g = Some (save_remainder mem c u off' gS)"
    by (simp add: direct_def sl)
  from save_remainder_any [OF nothrow, of mem c u off'] show ?thesis
  proof
    assume "save_remainder mem c u off' gS = save_remainder unbounded c u off' gS"
    then show ?thesis using d gU by simp
  next
    assume f: "save_remainder mem c u off' gS = throw allocation_failed gS"
    obtain es where "trace gU = trace gS @ es"
      using save_remainder_trace [of unbounded c u off' gS] gU by auto
    then show ?thesis using d f by (simp add: throw_def)
  qed
qed

lemma body_any:
  assumes "body unbounded c part g = Some gU" and "thrown g = None"
  shows "\<exists>g'. body mem c part g = Some g'
    \<and> (g' = gU \<or> thrown g' = Some allocation_failed \<and> (\<exists>es. trace gU = trace g' @ es))"
proof -
  let ?u = "toUint8Array part"
  let ?n = "c - carryLength g"
  consider (same) "\<not> isView part \<or> byteLength ?u = 0 \<or> 0 < carryLength g \<and> byteLength ?u < ?n"
    | (plain) "isView part" "byteLength ?u \<noteq> 0" "carryLength g = 0"
    | (merge) "isView part" "byteLength ?u \<noteq> 0" "0 < carryLength g" "?n \<le> byteLength ?u"
    by linarith
  then show ?thesis
  proof cases
    case same
    then have "body mem c part g = body unbounded c part g"
      by (auto simp: body_def Let_def)
    then show ?thesis using assms(1) by simp
  next
    case plain
    then have "body mem c part g = direct mem c ?u 0 g"
      and "direct unbounded c ?u 0 g = Some gU"
      using assms(1) by (simp_all add: body_def Let_def)
    then show ?thesis using direct_any [OF _ assms(2), of c ?u 0 gU mem] by simp
  next
    case merge
    let ?gU1 = "complete unbounded c ?u ?n g"
    from complete_any [of mem c ?u ?n g] show ?thesis
    proof
      assume eq: "complete mem c ?u ?n g = ?gU1"
      show ?thesis
      proof (cases "thrown ?gU1 = None")
        case True
        then have "body mem c part g = direct mem c ?u ?n ?gU1"
          and "direct unbounded c ?u ?n ?gU1 = Some gU"
          using assms(1) merge eq by (simp_all add: body_def Let_def)
        then show ?thesis using direct_any [OF _ True, of c ?u ?n gU mem] by simp
      next
        case False
        then have "body mem c part g = Some ?gU1" and "gU = ?gU1"
          using assms(1) merge eq by (simp_all add: body_def Let_def)
        then show ?thesis by simp
      qed
    next
      assume f: "complete mem c ?u ?n g = throw allocation_failed g"
      then have b: "body mem c part g = Some (throw allocation_failed g)"
        using merge by (simp add: body_def Let_def throw_def)
      obtain es where "trace gU = trace g @ es" using body_trace [OF assms(1)] by auto
      then show ?thesis using b by (simp add: throw_def)
    qed
  qed
qed

lemma for_of_any:
  assumes "for_of unbounded c parts g = Some gU" and "thrown g = None"
  shows "\<exists>g'. for_of mem c parts g = Some g'
    \<and> (g' = gU \<or> thrown g' = Some allocation_failed \<and> (\<exists>es. trace gU = trace g' @ es))"
  using assms
proof (induction parts arbitrary: g)
  case Nil
  then show ?case by simp
next
  case (Cons part parts)
  from Cons.prems(1) obtain g1U where bU: "body unbounded c part g = Some g1U"
    and restU: "if thrown g1U \<noteq> None then gU = g1U else for_of unbounded c parts g1U = Some gU"
    by (auto split: option.splits if_splits)
  from body_any [OF bU Cons.prems(2), of mem] obtain g1 where b: "body mem c part g = Some g1"
    and alt: "g1 = g1U \<or> thrown g1 = Some allocation_failed \<and> (\<exists>es. trace g1U = trace g1 @ es)"
    by blast
  from alt show ?case
  proof
    assume eq: "g1 = g1U"
    show ?thesis
    proof (cases "thrown g1U = None")
      case True
      then have fU: "for_of unbounded c parts g1U = Some gU" using restU by simp
      from Cons.IH [OF fU True] show ?thesis using b eq True by simp
    next
      case False
      then show ?thesis using b eq restU by simp
    qed
  next
    assume f: "thrown g1 = Some allocation_failed \<and> (\<exists>es. trace g1U = trace g1 @ es)"
    then obtain es1 where 1: "trace g1U = trace g1 @ es1" by blast
    have "\<exists>es. trace gU = trace g1U @ es"
    proof (cases "thrown g1U = None")
      case True
      then show ?thesis using restU for_of_trace [of unbounded c parts g1U gU] by simp
    next
      case False
      then show ?thesis using restU by simp
    qed
    then obtain es2 where "trace gU = trace g1U @ es2" by blast
    then have "trace gU = trace g1 @ (es1 @ es2)" using 1 by simp
    then show ?thesis using b f by auto
  qed
qed

lemma for_of_granted:
  assumes "\<forall>h'. mem h' c"
  shows "for_of mem c parts g = for_of unbounded c parts g"
proof -
  have n: "new_Uint8Array mem c = new_Uint8Array unbounded c"
    using assms by (intro ext) (simp add: new_Uint8Array_def unbounded_def)
  have 1: "complete mem c = complete unbounded c"
    by (intro ext) (simp add: complete_def n)
  have 2: "save_remainder mem c = save_remainder unbounded c"
    by (intro ext) (simp add: save_remainder_def n cong: option.case_cong)
  have 3: "direct mem c = direct unbounded c"
    by (intro ext) (simp add: direct_def 2)
  have "body mem c = body unbounded c"
    by (intro ext) (simp add: body_def 1 3 Let_def)
  then show ?thesis
    by (induction parts arbitrary: g) (simp_all split: option.splits)
qed

lemma chunkFrom_any:
  assumes "chunkFrom unbounded h iterable chunkSize = Some gU"
  obtains g where "chunkFrom mem h iterable chunkSize = Some g"
    and "g = gU \<or> thrown g = Some allocation_failed \<and> (\<exists>es. trace gU = trace g @ es)"
    and "(\<forall>h'. mem h' (size_of chunkSize)) \<longrightarrow> g = gU"
proof (cases "iterator iterable = None \<or> is_string iterable \<or> bad_chunkSize chunkSize")
  case True
  then have "chunkFrom mem h iterable chunkSize = chunkFrom unbounded h iterable chunkSize"
    by (auto simp: chunkFrom_def)
  then show ?thesis using that assms by simp
next
  case False
  let ?c = "size_of chunkSize"
  let ?parts = "the (iterator iterable)"
  from False assms obtain fU where fU: "for_of unbounded ?c ?parts (start h) = Some fU"
    and gU: "gU = flush fU"
    by (auto simp: chunkFrom_def)
  from for_of_any [OF fU, of mem] obtain f where f: "for_of mem ?c ?parts (start h) = Some f"
    and alt: "f = fU \<or> thrown f = Some allocation_failed \<and> (\<exists>es. trace fU = trace f @ es)"
    by (auto simp: start_def)
  have run: "chunkFrom mem h iterable chunkSize = Some (flush f)"
    using False f by (auto simp: chunkFrom_def)
  have 2: "flush f = gU \<or> thrown (flush f) = Some allocation_failed
      \<and> (\<exists>es. trace gU = trace (flush f) @ es)"
    using alt
  proof
    assume "f = fU"
    then show ?thesis using gU by simp
  next
    assume a: "thrown f = Some allocation_failed \<and> (\<exists>es. trace fU = trace f @ es)"
    then obtain es1 where 1: "trace fU = trace f @ es1" by blast
    obtain es2 where "trace gU = trace fU @ es2" using flush_extends [of fU] gU by auto
    then have "trace gU = trace f @ (es1 @ es2)" using 1 by simp
    moreover have "flush f = f" using a by (simp add: flush_def)
    ultimately show ?thesis using a by auto
  qed
  have 3: "flush f = gU" if "\<forall>h'. mem h' ?c"
    using for_of_granted [of mem ?c ?parts "start h"] that f fU gU by simp
  show ?thesis using that [OF run 2] 3 by blast
qed

lemma chunkFromAsync_any:
  assumes "chunkFromAsync unbounded h iterable chunkSize = Some gU"
  obtains g where "chunkFromAsync mem h iterable chunkSize = Some g"
    and "g = gU \<or> thrown g = Some allocation_failed \<and> (\<exists>es. trace gU = trace g @ es)"
    and "(\<forall>h'. mem h' (size_of chunkSize)) \<longrightarrow> g = gU"
proof (cases "(asyncIterator iterable = None \<and> iterator iterable = None) \<or> bad_chunkSize chunkSize")
  case True
  then have "chunkFromAsync mem h iterable chunkSize = chunkFromAsync unbounded h iterable chunkSize"
    by (auto simp: chunkFromAsync_def)
  then show ?thesis using that assms by simp
next
  case False
  let ?c = "size_of chunkSize"
  let ?parts = "awaited_items iterable"
  from False assms obtain fU where fU: "for_of unbounded ?c ?parts (start h) = Some fU"
    and gU: "gU = flush fU"
    by (auto simp: chunkFromAsync_def for_await_eq flushAsync_eq)
  from for_of_any [OF fU, of mem] obtain f where f: "for_of mem ?c ?parts (start h) = Some f"
    and alt: "f = fU \<or> thrown f = Some allocation_failed \<and> (\<exists>es. trace fU = trace f @ es)"
    by (auto simp: start_def)
  have run: "chunkFromAsync mem h iterable chunkSize = Some (flush f)"
    using False f by (auto simp: chunkFromAsync_def for_await_eq flushAsync_eq)
  have 2: "flush f = gU \<or> thrown (flush f) = Some allocation_failed
      \<and> (\<exists>es. trace gU = trace (flush f) @ es)"
    using alt
  proof
    assume "f = fU"
    then show ?thesis using gU by simp
  next
    assume a: "thrown f = Some allocation_failed \<and> (\<exists>es. trace fU = trace f @ es)"
    then obtain es1 where 1: "trace fU = trace f @ es1" by blast
    obtain es2 where "trace gU = trace fU @ es2" using flush_extends [of fU] gU by auto
    then have "trace gU = trace f @ (es1 @ es2)" using 1 by simp
    moreover have "flush f = f" using a by (simp add: flush_def)
    ultimately show ?thesis using a by auto
  qed
  have 3: "flush f = gU" if "\<forall>h'. mem h' ?c"
    using for_of_granted [of mem ?c ?parts "start h"] that f fU gU by simp
  show ?thesis using that [OF run 2] 3 by blast
qed


lemma outcome:
  assumes "g = gU \<or> thrown g = Some allocation_failed \<and> (\<exists>es. trace gU = trace g @ es)"
    and "thrown gU = None"
  shows "thrown g = None \<or> thrown g = Some allocation_failed"
    and "thrown g = None \<longrightarrow> g = gU"
    and "\<exists>ys. yielded_bytes (trace gU) = yielded_bytes (trace g) @ ys"
    and "\<exists>vs. yielded (trace gU) = yielded (trace g) @ vs"
proof -
  show "thrown g = None \<or> thrown g = Some allocation_failed" using assms by auto
  show "thrown g = None \<longrightarrow> g = gU" using assms by auto
  from assms(1) obtain es where "trace gU = trace g @ es" by auto
  then show "\<exists>ys. yielded_bytes (trace gU) = yielded_bytes (trace g) @ ys"
    and "\<exists>vs. yielded (trace gU) = yielded (trace g) @ vs"
    by simp_all
qed

section \<open>The claims\<close>

text \<open>
  C8. For every ArrayBufferView of byte length \<open>L\<close> and every positive safe-integer
  \<open>chunkSize\<close>, \<open>chunk\<close> ends and yields exactly the slices
  \<open>[offset, min (offset + chunkSize) L)\<close> for \<open>offset = 0, chunkSize, 2 * chunkSize, ...\<close>
  while \<open>offset < L\<close>, in that order, and throws nothing; an empty input yields no chunk.
\<close>

theorem chunk_emits_slices:
  assumes "isView data" and "\<not> bad_chunkSize chunkSize"
    and "byteLength (toUint8Array data) \<le> MAX_SAFE_INTEGER"
  shows "chunk data chunkSize = Some (chunk_slices (toUint8Array data) (size_of chunkSize), None)
    \<and> (byteLength (toUint8Array data) = 0 \<longrightarrow> chunk data chunkSize = Some ([], None))"
proof -
  have c: "0 < size_of chunkSize" using assms(2) by (rule good_chunkSize)
  have "chunk_slices (toUint8Array data) (size_of chunkSize) =
      map (\<lambda>k. slice (toUint8Array data) (k * size_of chunkSize)
                 (min (k * size_of chunkSize + size_of chunkSize) (byteLength (toUint8Array data))))
        [0..<(byteLength (toUint8Array data) + size_of chunkSize - 1) div size_of chunkSize]"
    unfolding chunk_slices_def by (simp only: offsets_below [OF c] map_map o_def)
  then have run: "chunk data chunkSize =
      Some (chunk_slices (toUint8Array data) (size_of chunkSize), None)"
    using chunk_run [OF assms] by simp
  moreover have "chunk_slices (toUint8Array data) (size_of chunkSize) = []"
    if "byteLength (toUint8Array data) = 0"
    using that by (simp add: chunk_slices_def)
  ultimately show ?thesis by simp
qed

text \<open>A five-byte view at offset 1 in chunks of two bytes, and an empty view.\<close>

theorem chunk_emits_slices_witness:
  "chunk (TypedArray 1 \<lparr>arrayBuffer = 0, byteOffset = 1, byteLength = 5\<rparr>) (Number (Finite 2)) =
     Some ([\<lparr>arrayBuffer = 0, byteOffset = 1, byteLength = 2\<rparr>,
            \<lparr>arrayBuffer = 0, byteOffset = 3, byteLength = 2\<rparr>,
            \<lparr>arrayBuffer = 0, byteOffset = 5, byteLength = 1\<rparr>], None)
   \<and> chunk (DataView \<lparr>arrayBuffer = 0, byteOffset = 1, byteLength = 0\<rparr>) (Number (Finite 2)) =
     Some ([], None)"
proof -
  have one: "upt 0 5 = [0, 1, 2, 3, 4]" by (simp add: upt_rec)
  show ?thesis
    using chunk_emits_slices [of "TypedArray 1 \<lparr>arrayBuffer = 0, byteOffset = 1, byteLength = 5\<rparr>"
        "Number (Finite 2)"]
      chunk_emits_slices [of "DataView \<lparr>arrayBuffer = 0, byteOffset = 1, byteLength = 0\<rparr>"
        "Number (Finite 2)"]
    by (simp add: chunk_slices_def slice_def bad_chunkSize_def MAX_SAFE_INTEGER_def one)
qed




text \<open>
  C10. A string source. \<open>chunkFrom\<close> throws the source-type error at once, whatever
  the string and the chunk size are, and nothing is copied or yielded. \<open>chunkFromAsync\<close>
  lets a string pass its source-type check (it has \<open>Symbol.iterator\<close>): given a
  non-empty string and a valid chunk size it throws the per-item error at the first
  character, before anything is copied or yielded (with an invalid chunk size, the error
  about the chunk size, which is checked before any item is pulled); given the empty
  string and a valid chunk size it ends without an error. So the two functions behave
  differently on every string. All this holds on every runtime.
\<close>

theorem string_source:
  "(\<exists>g. chunkFrom mem h (String s) chunkSize = Some g
        \<and> thrown g = Some (TypeError ''Expected iterable to be an Iterable<ArrayBufferView>'')
        \<and> trace g = [] \<and> heap g = h)
   \<and> \<not> (asyncIterator (String s) = None \<and> iterator (String s) = None)
   \<and> (\<exists>g. chunkFromAsync mem h (String s) chunkSize = Some g
        \<and> thrown g =
            (if bad_chunkSize chunkSize
             then Some (TypeError ''Expected chunkSize to be a positive integer'')
             else if s = [] then None
             else Some (TypeError ''Expected iterable chunks to be Uint8Array or ArrayBufferView''))
        \<and> thrown g \<noteq> Some (TypeError ''Expected iterable to be an async iterable or iterable'')
        \<and> trace g = [] \<and> heap g = h)
   \<and> chunkFromAsync mem h (String s) chunkSize \<noteq> chunkFrom mem h (String s) chunkSize"
  by (cases s)
     (simp_all add: chunkFrom_def chunkFromAsync_def awaited_items_def bodyAsync_def
       flushAsync_def throw_def start_def)

text \<open>The string \<open>abc\<close> with chunks of two bytes, and with the chunk size zero.\<close>

theorem string_source_witness:
  "(\<exists>g. chunkFrom (limited (2 ^ 32)) [] (String ''abc'') (Number (Finite 2)) = Some g
        \<and> thrown g = Some (TypeError ''Expected iterable to be an Iterable<ArrayBufferView>'')
        \<and> trace g = [])
   \<and> (\<exists>g. chunkFromAsync (limited (2 ^ 32)) [] (String ''abc'') (Number (Finite 2)) = Some g
        \<and> thrown g = Some (TypeError ''Expected iterable chunks to be Uint8Array or ArrayBufferView'')
        \<and> trace g = [])
   \<and> (\<exists>g. chunkFromAsync (limited (2 ^ 32)) [] (String ''abc'') (Number (Finite 0)) = Some g
        \<and> thrown g = Some (TypeError ''Expected chunkSize to be a positive integer'')
        \<and> trace g = [])"
  using string_source [of "limited (2 ^ 32)" "[]" "''abc''" "Number (Finite 2)"]
    string_source [of "limited (2 ^ 32)" "[]" "''abc''" "Number (Finite 0)"]
  by (simp add: bad_chunkSize_def) blast

text \<open>
  C1, as stated: for every sequence of valid views and every positive safe-integer
  \<open>chunkSize\<close>, the chunks that \<open>chunkFrom\<close> yields put together are the bytes of the
  input. This fails where the runtime cannot allocate \<open>chunkSize\<close> bytes. With one unit
  of three bytes and \<open>chunkSize = 2^53 - 1\<close>, on a runtime whose buffers hold at most
  \<open>2^32\<close> bytes, the run ends with the \<open>RangeError\<close> of \<open>new Uint8Array(chunkSize)\<close>
  at line 74 and has yielded nothing.
\<close>

theorem round_trip_counterexample:
  "\<not> bad_chunkSize (Number (Finite (2 ^ 53 - 1)))
   \<and> valid_units [[1, 2, 3]] [TypedArray 1 \<lparr>arrayBuffer = 0, byteOffset = 0, byteLength = 3\<rparr>]
   \<and> chunkFrom (limited (2 ^ 32)) [[1, 2, 3]]
       (Array [TypedArray 1 \<lparr>arrayBuffer = 0, byteOffset = 0, byteLength = 3\<rparr>])
       (Number (Finite (2 ^ 53 - 1)))
     = Some \<lparr>heap = [[1, 2, 3]], carryBuffer = None, carryLength = 0, trace = [],
             thrown = Some (RangeError ''Array buffer allocation failed'')\<rparr>
   \<and> concat (yielded_bytes []) \<noteq>
       concat (unit_bytes [[1, 2, 3]] [TypedArray 1 \<lparr>arrayBuffer = 0, byteOffset = 0, byteLength = 3\<rparr>])"
  by (simp add: run_defs valid_units_def valid_view_def MAX_SAFE_INTEGER_def unit_bytes_def)

text \<open>
  C1, amended. For every sequence of views within the heap and every positive
  safe-integer \<open>chunkSize\<close>, on every runtime, \<open>chunkFrom\<close> ends, either without an
  error or with the \<open>RangeError\<close> of an allocation that the runtime refused; it ends
  without an error on a runtime that grants every request for \<open>chunkSize\<close> bytes. When
  it ends without an error, the chunks it yielded, put together in the order they were
  yielded, are the bytes of the input units put together in the order they were consumed:
  as read at the moment each chunk is yielded, and as read from the heap when the run has
  ended. In either case the bytes yielded are an initial part of the bytes of the input.
  The same holds for \<open>chunkFromAsync\<close>, on a sync or an async source.
\<close>

theorem round_trip:
  assumes "\<not> bad_chunkSize chunkSize" and "valid_units h parts"
  shows "(iterator iterable = Some parts \<and> \<not> is_string iterable \<longrightarrow>
            (\<exists>g. chunkFrom mem h iterable chunkSize = Some g
               \<and> (thrown g = None \<or> thrown g = Some allocation_failed)
               \<and> ((\<forall>h'. mem h' (size_of chunkSize)) \<longrightarrow> thrown g = None)
               \<and> (thrown g = None \<longrightarrow>
                    concat (yielded_bytes (trace g)) = concat (unit_bytes h parts)
                    \<and> concat (map (read (heap g)) (yielded (trace g))) = concat (unit_bytes h parts))
               \<and> (\<exists>rest. concat (unit_bytes h parts) = concat (yielded_bytes (trace g)) @ rest)))
       \<and> (\<not> (asyncIterator iterable = None \<and> iterator iterable = None)
            \<and> awaited_items iterable = parts \<longrightarrow>
            (\<exists>g. chunkFromAsync mem h iterable chunkSize = Some g
               \<and> (thrown g = None \<or> thrown g = Some allocation_failed)
               \<and> ((\<forall>h'. mem h' (size_of chunkSize)) \<longrightarrow> thrown g = None)
               \<and> (thrown g = None \<longrightarrow>
                    concat (yielded_bytes (trace g)) = concat (unit_bytes h parts)
                    \<and> concat (map (read (heap g)) (yielded (trace g))) = concat (unit_bytes h parts))
               \<and> (\<exists>rest. concat (unit_bytes h parts) = concat (yielded_bytes (trace g)) @ rest)))"
proof -
  let ?c = "size_of chunkSize"
  let ?in = "concat (unit_bytes h parts)"
  have c: "0 < ?c" using assms(1) by (rule good_chunkSize)
  have main: "(thrown g = None \<or> thrown g = Some allocation_failed)
      \<and> ((\<forall>h'. mem h' ?c) \<longrightarrow> thrown g = None)
      \<and> (thrown g = None \<longrightarrow>
            concat (yielded_bytes (trace g)) = ?in
            \<and> concat (map (read (heap g)) (yielded (trace g))) = ?in)
      \<and> (\<exists>rest. ?in = concat (yielded_bytes (trace g)) @ rest)"
    if nU: "thrown gU = None"
      and bU: "yielded_bytes (trace gU) = rechunk ?c ?in"
      and sU: "\<forall>e\<in>set (trace gU). settled (heap gU) e"
      and alt: "g = gU \<or> thrown g = Some allocation_failed \<and> (\<exists>es. trace gU = trace g @ es)"
      and gr: "(\<forall>h'. mem h' ?c) \<longrightarrow> g = gU"
    for g gU
  proof -
    note o = outcome [OF alt nU]
    have catU: "concat (yielded_bytes (trace gU)) = ?in"
      using c by (simp add: bU concat_rechunk)
    have rdU: "concat (map (read (heap gU)) (yielded (trace gU))) = ?in"
      using catU by (simp add: settled_read [OF sU])
    from o(3) obtain ys where "yielded_bytes (trace gU) = yielded_bytes (trace g) @ ys" by blast
    then have "?in = concat (yielded_bytes (trace g)) @ concat ys"
      using catU by simp
    then have 4: "\<exists>rest. ?in = concat (yielded_bytes (trace g)) @ rest" by blast
    have 2: "(\<forall>h'. mem h' ?c) \<longrightarrow> thrown g = None" using gr nU by auto
    have 3: "thrown g = None \<longrightarrow>
        concat (yielded_bytes (trace g)) = ?in
        \<and> concat (map (read (heap g)) (yielded (trace g))) = ?in"
      using o(2) catU rdU by auto
    show ?thesis using o(1) 2 3 4 by blast
  qed
  have sync: "\<exists>g. chunkFrom mem h iterable chunkSize = Some g
               \<and> (thrown g = None \<or> thrown g = Some allocation_failed)
               \<and> ((\<forall>h'. mem h' ?c) \<longrightarrow> thrown g = None)
               \<and> (thrown g = None \<longrightarrow>
                    concat (yielded_bytes (trace g)) = ?in
                    \<and> concat (map (read (heap g)) (yielded (trace g))) = ?in)
               \<and> (\<exists>rest. ?in = concat (yielded_bytes (trace g)) @ rest)"
    if a: "iterator iterable = Some parts \<and> \<not> is_string iterable"
  proof -
    obtain gU where rU: "chunkFrom unbounded h iterable chunkSize = Some gU"
      and nU: "thrown gU = None"
      and bU: "yielded_bytes (trace gU) = rechunk ?c ?in"
      and sU: "\<forall>e\<in>set (trace gU). settled (heap gU) e"
      using chunkFrom_valid [OF _ _ assms] a by blast
    obtain g where r: "chunkFrom mem h iterable chunkSize = Some g"
      and alt: "g = gU \<or> thrown g = Some allocation_failed \<and> (\<exists>es. trace gU = trace g @ es)"
      and gr: "(\<forall>h'. mem h' ?c) \<longrightarrow> g = gU"
      by (rule chunkFrom_any [OF rU])
    show ?thesis
      by (rule exI [of _ g]) (rule conjI [OF r main [OF nU bU sU alt gr]])
  qed
  have async: "\<exists>g. chunkFromAsync mem h iterable chunkSize = Some g
               \<and> (thrown g = None \<or> thrown g = Some allocation_failed)
               \<and> ((\<forall>h'. mem h' ?c) \<longrightarrow> thrown g = None)
               \<and> (thrown g = None \<longrightarrow>
                    concat (yielded_bytes (trace g)) = ?in
                    \<and> concat (map (read (heap g)) (yielded (trace g))) = ?in)
               \<and> (\<exists>rest. ?in = concat (yielded_bytes (trace g)) @ rest)"
    if a: "\<not> (asyncIterator iterable = None \<and> iterator iterable = None)
            \<and> awaited_items iterable = parts"
  proof -
    obtain gU where rU: "chunkFromAsync unbounded h iterable chunkSize = Some gU"
      and nU: "thrown gU = None"
      and bU: "yielded_bytes (trace gU) = rechunk ?c ?in"
      and sU: "\<forall>e\<in>set (trace gU). settled (heap gU) e"
      using chunkFromAsync_valid [OF _ _ assms] a by blast
    obtain g where r: "chunkFromAsync mem h iterable chunkSize = Some g"
      and alt: "g = gU \<or> thrown g = Some allocation_failed \<and> (\<exists>es. trace gU = trace g @ es)"
      and gr: "(\<forall>h'. mem h' ?c) \<longrightarrow> g = gU"
      by (rule chunkFromAsync_any [OF rU])
    show ?thesis
      by (rule exI [of _ g]) (rule conjI [OF r main [OF nU bU sU alt gr]])
  qed
  show ?thesis
    by (intro conjI impI) (erule sync, erule async)
qed

text \<open>
  Units of five and three bytes in chunks of three, on a runtime whose buffers hold up to
  \<open>2^32\<close> bytes: from an array through \<open>chunkFrom\<close>, from a stream through
  \<open>chunkFromAsync\<close>.
\<close>

theorem round_trip_witness:
  "(\<exists>g. chunkFrom (limited (2 ^ 32)) [[1,2,3,4,5,6,7],[10,11,12]]
          (Array [TypedArray 1 \<lparr>arrayBuffer = 0, byteOffset = 1, byteLength = 5\<rparr>,
                  DataView \<lparr>arrayBuffer = 1, byteOffset = 0, byteLength = 3\<rparr>]) (Number (Finite 3)) = Some g
        \<and> thrown g = None
        \<and> concat (yielded_bytes (trace g)) = [2,3,4,5,6,10,11,12]
        \<and> concat (map (read (heap g)) (yielded (trace g))) = [2,3,4,5,6,10,11,12])
   \<and> (\<exists>g. chunkFromAsync (limited (2 ^ 32)) [[1,2,3,4,5,6,7],[10,11,12]]
          (AsyncIterable [TypedArray 1 \<lparr>arrayBuffer = 0, byteOffset = 1, byteLength = 5\<rparr>,
                  DataView \<lparr>arrayBuffer = 1, byteOffset = 0, byteLength = 3\<rparr>]) (Number (Finite 3)) = Some g
        \<and> thrown g = None
        \<and> concat (yielded_bytes (trace g)) = [2,3,4,5,6,10,11,12]
        \<and> concat (map (read (heap g)) (yielded (trace g))) = [2,3,4,5,6,10,11,12])"
  using round_trip [where chunkSize = "Number (Finite 3)" and h = "[[1,2,3,4,5,6,7],[10,11,12]]"
      and mem = "limited (2 ^ 32)"
      and parts = "[TypedArray 1 \<lparr>arrayBuffer = 0, byteOffset = 1, byteLength = 5\<rparr>,
        DataView \<lparr>arrayBuffer = 1, byteOffset = 0, byteLength = 3\<rparr>]"
      and iterable = "Array [TypedArray 1 \<lparr>arrayBuffer = 0, byteOffset = 1, byteLength = 5\<rparr>,
        DataView \<lparr>arrayBuffer = 1, byteOffset = 0, byteLength = 3\<rparr>]"]
    round_trip [where chunkSize = "Number (Finite 3)" and h = "[[1,2,3,4,5,6,7],[10,11,12]]"
      and mem = "limited (2 ^ 32)"
      and parts = "[TypedArray 1 \<lparr>arrayBuffer = 0, byteOffset = 1, byteLength = 5\<rparr>,
        DataView \<lparr>arrayBuffer = 1, byteOffset = 0, byteLength = 3\<rparr>]"
      and iterable = "AsyncIterable [TypedArray 1 \<lparr>arrayBuffer = 0, byteOffset = 1, byteLength = 5\<rparr>,
        DataView \<lparr>arrayBuffer = 1, byteOffset = 0, byteLength = 3\<rparr>]"]
  by (simp add: bad_chunkSize_def valid_units_def valid_view_def MAX_SAFE_INTEGER_def
      unit_bytes_def read_def awaited_items_def limited_def) blast







text \<open>
  C7. In the branch that accumulates into the carry (\<open>carryLength > 0\<close> and the unit
  shorter than \<open>chunkSize - carryLength\<close>), the write \<open>carryBuffer.set(buffer, carryLength)\<close>
  is within bounds: in every state that the loop reaches on valid units and goes on from
  (nothing was thrown; an allocation that the runtime refuses ends the run), be it the
  loop of \<open>chunkFrom\<close> or that of \<open>chunkFromAsync\<close> and whatever the runtime grants, a
  positive \<open>carryLength\<close> means that the carry buffer is allocated with \<open>chunkSize\<close>
  bytes, the condition of the branch gives \<open>carryLength + buffer.length < chunkSize\<close>,
  and the write throws nothing.
\<close>

theorem carry_write_in_bounds:
  assumes "\<not> bad_chunkSize chunkSize" and "valid_units h parts"
    and "for_of mem (size_of chunkSize) parts (start h) = Some g
         \<or> for_await mem (size_of chunkSize) parts (start h) = Some g"
    and "thrown g = None"
    and "0 < carryLength g" and "byteLength buffer < size_of chunkSize - carryLength g"
  shows "\<exists>cb. carryBuffer g = Some cb \<and> byteLength cb = size_of chunkSize
    \<and> carryLength g + byteLength buffer < byteLength cb
    \<and> thrown (typed_set (carryBuffer g) buffer (carryLength g) g) = None"
proof -
  obtain g0 where f: "for_of unbounded (size_of chunkSize) parts (start h) = Some g0"
    and ok: "carry_ok h (size_of chunkSize) g0"
    by (rule loop_run [OF good_chunkSize [OF assms(1)] assms(2)])
  from for_of_any [OF f, of mem] obtain g' where
    f': "for_of mem (size_of chunkSize) parts (start h) = Some g'"
    and alt: "g' = g0 \<or> thrown g' = Some allocation_failed"
    by (auto simp: start_def)
  have "g' = g" using assms(3) f' by (simp add: for_await_eq)
  then have "g = g0" using alt assms(4) by auto
  with ok assms(5) obtain cb where cb: "carryBuffer g = Some cb"
    and cap: "byteLength cb = size_of chunkSize" and nothrow: "thrown g = None"
    by (auto simp: carry_ok_def split: option.splits)
  have lt: "carryLength g + byteLength buffer < byteLength cb"
    using assms(6) cap by simp
  then have "thrown (typed_set (carryBuffer g) buffer (carryLength g) g) = None"
    using nothrow by (simp add: typed_set_def cb Let_def)
  then show ?thesis using cb cap lt by simp
qed

text \<open>
  Chunks of eight bytes: after a unit of three bytes, three bytes are pending, and a unit
  of two bytes is appended to the carry.
\<close>

theorem carry_write_in_bounds_witness:
  "\<exists>g cb. for_of (limited (2 ^ 32)) 8 [TypedArray 1 \<lparr>arrayBuffer = 1, byteOffset = 0, byteLength = 3\<rparr>]
            (start [[1,2,3,4,5,6,7],[10,11,12]]) = Some g
     \<and> thrown g = None
     \<and> carryLength g = 3 \<and> carryBuffer g = Some cb \<and> byteLength cb = 8
     \<and> thrown (typed_set (carryBuffer g) \<lparr>arrayBuffer = 0, byteOffset = 1, byteLength = 2\<rparr>
                  (carryLength g) g) = None"
proof -
  let ?g = "\<lparr>heap = [[1,2,3,4,5,6,7],[10,11,12],[10,11,12,0,0,0,0,0]],
             carryBuffer = Some \<lparr>arrayBuffer = 2, byteOffset = 0, byteLength = 8\<rparr>,
             carryLength = 3,
             trace = [Copy \<lparr>arrayBuffer = 1, byteOffset = 0, byteLength = 3\<rparr>
                        \<lparr>arrayBuffer = 2, byteOffset = 0, byteLength = 8\<rparr> 0],
             thrown = None\<rparr>"
  have zeros: "replicate 5 (0::byte) = [0, 0, 0, 0, 0]"
    by (simp add: numeral_eq_Suc)
  have f: "for_of (limited (2 ^ 32)) 8 [TypedArray 1 \<lparr>arrayBuffer = 1, byteOffset = 0, byteLength = 3\<rparr>]
            (start [[1,2,3,4,5,6,7],[10,11,12]]) = Some ?g"
    by (simp add: run_defs zeros)
  have "\<exists>cb. carryBuffer ?g = Some cb \<and> byteLength cb = size_of (Number (Finite 8))
      \<and> carryLength ?g + byteLength \<lparr>arrayBuffer = 0, byteOffset = 1, byteLength = 2\<rparr> < byteLength cb
      \<and> thrown (typed_set (carryBuffer ?g) \<lparr>arrayBuffer = 0, byteOffset = 1, byteLength = 2\<rparr>
                  (carryLength ?g) ?g) = None"
    using f
    by (intro carry_write_in_bounds
          [where h = "[[1,2,3,4,5,6,7],[10,11,12]]" and mem = "limited (2 ^ 32)"
             and parts = "[TypedArray 1 \<lparr>arrayBuffer = 1, byteOffset = 0, byteLength = 3\<rparr>]"])
       (simp_all add: bad_chunkSize_def valid_units_def valid_view_def MAX_SAFE_INTEGER_def)
  then show ?thesis using f by (intro exI [of _ ?g]) simp
qed

text \<open>
  C6, as stated: each function throws a \<open>TypeError\<close> if and only if the data (or source)
  argument is not a recognized view (or sequence of views) or \<open>chunkSize\<close> is not a
  positive safe integer, and the source-type error is the one thrown when both are
  invalid. This fails for \<open>chunkFrom\<close> and \<open>chunkFromAsync\<close>: an array holding a string
  makes \<open>chunkFrom\<close> throw although \<open>chunkSize\<close> is valid, so by the claim it is not a
  recognized sequence of views; yet with an invalid \<open>chunkSize\<close> the error thrown for
  it is the one about \<open>chunkSize\<close>. Likewise for a string given to \<open>chunkFromAsync\<close>.
\<close>

theorem argument_errors_counterexample:
  "\<not> bad_chunkSize (Number (Finite 100)) \<and> bad_chunkSize (Number (Finite (- 1)))
   \<and> map_option (\<lambda>g. (thrown g, trace g))
       (chunkFrom (limited (2 ^ 32)) [] (Array [String ''x'']) (Number (Finite 100)))
     = Some (Some (TypeError ''Expected iterable chunks to be Uint8Array or ArrayBufferView''), [])
   \<and> map_option (\<lambda>g. (thrown g, trace g))
       (chunkFrom (limited (2 ^ 32)) [] (Array [String ''x'']) (Number (Finite (- 1))))
     = Some (Some (TypeError ''Expected chunkSize to be a positive integer''), [])
   \<and> map_option (\<lambda>g. (thrown g, trace g))
       (chunkFromAsync (limited (2 ^ 32)) [] (String ''x'') (Number (Finite 100)))
     = Some (Some (TypeError ''Expected iterable chunks to be Uint8Array or ArrayBufferView''), [])
   \<and> map_option (\<lambda>g. (thrown g, trace g))
       (chunkFromAsync (limited (2 ^ 32)) [] (String ''x'') (Number (Finite (- 1))))
     = Some (Some (TypeError ''Expected chunkSize to be a positive integer''), [])"
  by (simp add: chunkFrom_def chunkFromAsync_def bad_chunkSize_def body_def bodyAsync_def
      flush_def flushAsync_def awaited_items_def throw_def start_def)

text \<open>
  C6, amended. \<open>chunk\<close> throws if and only if \<open>data\<close> is not a view or \<open>chunkSize\<close> is
  not a positive safe integer. \<open>chunkFrom\<close> and \<open>chunkFromAsync\<close> throw a \<open>TypeError\<close>
  if and only if the source fails the function's own source check (\<open>chunkFrom\<close>: no
  \<open>Symbol.iterator\<close>, or a string; \<open>chunkFromAsync\<close>: neither \<open>Symbol.asyncIterator\<close>
  nor \<open>Symbol.iterator\<close>), or \<open>chunkSize\<close> is not a positive safe integer, or an item
  handed to the loop is not a view: for \<open>chunkFrom\<close> an item that the source produces,
  for \<open>chunkFromAsync\<close> an item of the async iterator, or an item of the sync iterator
  once it is awaited. The checks are made in this order, so the error of the source check
  is the one thrown when \<open>chunkSize\<close> is invalid as well, and an invalid \<open>chunkSize\<close> is
  reported before any item is looked at; in both cases nothing was copied or yielded.
  This is so on a runtime that grants every request for \<open>chunkSize\<close> bytes; on any
  other, the run may end instead with the \<open>RangeError\<close> of an allocation that was
  refused (never when one of the first two checks fails). A \<open>chunkSize\<close> is accepted
  exactly when it is a number with an integer value from 1 to \<open>2^53 - 1\<close>: zero,
  negative numbers, fractions, \<open>NaN\<close>, the infinities, \<open>2^53\<close> and values that are not
  numbers are rejected.
\<close>

theorem argument_errors:
  assumes "isView data \<longrightarrow> byteLength (toUint8Array data) \<le> MAX_SAFE_INTEGER"
    and "views_in_heap h (sync_items iterable)" and "views_in_heap h (async_items iterable)"
  shows "(\<exists>ys. chunk data chunkSize = Some (ys, chunk_error data chunkSize))
    \<and> (\<exists>g. chunkFrom mem h iterable chunkSize = Some g
          \<and> (thrown g = chunkFrom_error iterable chunkSize \<or> thrown g = Some allocation_failed)
          \<and> ((\<forall>h'. mem h' (size_of chunkSize)) \<longrightarrow> thrown g = chunkFrom_error iterable chunkSize)
          \<and> (iterator iterable = None \<or> is_string iterable \<or> bad_chunkSize chunkSize \<longrightarrow>
                thrown g = chunkFrom_error iterable chunkSize \<and> trace g = []))
    \<and> (\<exists>g. chunkFromAsync mem h iterable chunkSize = Some g
          \<and> (thrown g = chunkFromAsync_error iterable chunkSize \<or> thrown g = Some allocation_failed)
          \<and> ((\<forall>h'. mem h' (size_of chunkSize)) \<longrightarrow> thrown g = chunkFromAsync_error iterable chunkSize)
          \<and> (asyncIterator iterable = None \<and> iterator iterable = None \<or> bad_chunkSize chunkSize \<longrightarrow>
                thrown g = chunkFromAsync_error iterable chunkSize \<and> trace g = []))
    \<and> (bad_chunkSize chunkSize \<longleftrightarrow>
          \<not> (\<exists>n. 0 < n \<and> n \<le> MAX_SAFE_INTEGER \<and> chunkSize = Number (Finite (of_nat n))))
    \<and> bad_chunkSize (Number (Finite 0)) \<and> bad_chunkSize (Number (Finite (- 1)))
    \<and> bad_chunkSize (Number (Finite (3 / 2))) \<and> bad_chunkSize (Number NaN)
    \<and> bad_chunkSize (Number PosInfinity) \<and> bad_chunkSize (Number NegInfinity)
    \<and> bad_chunkSize (Number (Finite (2 ^ 53))) \<and> bad_chunkSize (String ''invalid'')"
proof -
  have half: "\<lfloor>(3::rat) / 2\<rfloor> = 1" by (simp add: floor_eq_iff)
  have bad: "bad_chunkSize (Number (Finite 0))" "bad_chunkSize (Number (Finite (- 1)))"
    "bad_chunkSize (Number (Finite (3 / 2)))" "bad_chunkSize (Number NaN)"
    "bad_chunkSize (Number PosInfinity)" "bad_chunkSize (Number NegInfinity)"
    "bad_chunkSize (Number (Finite (2 ^ 53)))" "bad_chunkSize (String ''invalid'')"
    by (simp_all add: bad_chunkSize_def half)
  have sync: "\<exists>g. chunkFrom mem h iterable chunkSize = Some g
          \<and> (thrown g = chunkFrom_error iterable chunkSize \<or> thrown g = Some allocation_failed)
          \<and> ((\<forall>h'. mem h' (size_of chunkSize)) \<longrightarrow> thrown g = chunkFrom_error iterable chunkSize)
          \<and> (iterator iterable = None \<or> is_string iterable \<or> bad_chunkSize chunkSize \<longrightarrow>
                thrown g = chunkFrom_error iterable chunkSize \<and> trace g = [])"
  proof -
    from chunkFrom_thrown [OF assms(2)] obtain gU where
      rU: "chunkFrom unbounded h iterable chunkSize = Some gU"
      and tU: "thrown gU = chunkFrom_error iterable chunkSize"
      by blast
    obtain g where r: "chunkFrom mem h iterable chunkSize = Some g"
      and alt: "g = gU \<or> thrown g = Some allocation_failed \<and> (\<exists>es. trace gU = trace g @ es)"
      and gr: "(\<forall>h'. mem h' (size_of chunkSize)) \<longrightarrow> g = gU"
      by (rule chunkFrom_any [OF rU])
    have 1: "thrown g = chunkFrom_error iterable chunkSize \<or> thrown g = Some allocation_failed"
      using alt tU by auto
    have 2: "(\<forall>h'. mem h' (size_of chunkSize)) \<longrightarrow> thrown g = chunkFrom_error iterable chunkSize"
    proof
      assume "\<forall>h'. mem h' (size_of chunkSize)"
      with gr have "g = gU" by (rule mp)
      then show "thrown g = chunkFrom_error iterable chunkSize" using tU by simp
    qed
    have 3: "iterator iterable = None \<or> is_string iterable \<or> bad_chunkSize chunkSize \<longrightarrow>
        thrown g = chunkFrom_error iterable chunkSize \<and> trace g = []"
      using r by (auto simp: chunkFrom_def chunkFrom_error_def throw_def start_def)
    show ?thesis by (intro exI [of _ g] conjI r 1 2 3)
  qed
  have async: "\<exists>g. chunkFromAsync mem h iterable chunkSize = Some g
          \<and> (thrown g = chunkFromAsync_error iterable chunkSize \<or> thrown g = Some allocation_failed)
          \<and> ((\<forall>h'. mem h' (size_of chunkSize)) \<longrightarrow> thrown g = chunkFromAsync_error iterable chunkSize)
          \<and> (asyncIterator iterable = None \<and> iterator iterable = None \<or> bad_chunkSize chunkSize \<longrightarrow>
                thrown g = chunkFromAsync_error iterable chunkSize \<and> trace g = [])"
  proof -
    from chunkFromAsync_thrown [OF assms(3)] obtain gU where
      rU: "chunkFromAsync unbounded h iterable chunkSize = Some gU"
      and tU: "thrown gU = chunkFromAsync_error iterable chunkSize"
      by blast
    obtain g where r: "chunkFromAsync mem h iterable chunkSize = Some g"
      and alt: "g = gU \<or> thrown g = Some allocation_failed \<and> (\<exists>es. trace gU = trace g @ es)"
      and gr: "(\<forall>h'. mem h' (size_of chunkSize)) \<longrightarrow> g = gU"
      by (rule chunkFromAsync_any [OF rU])
    have 1: "thrown g = chunkFromAsync_error iterable chunkSize \<or> thrown g = Some allocation_failed"
      using alt tU by auto
    have 2: "(\<forall>h'. mem h' (size_of chunkSize)) \<longrightarrow> thrown g = chunkFromAsync_error iterable chunkSize"
    proof
      assume "\<forall>h'. mem h' (size_of chunkSize)"
      with gr have "g = gU" by (rule mp)
      then show "thrown g = chunkFromAsync_error iterable chunkSize" using tU by simp
    qed
    have 3: "asyncIterator iterable = None \<and> iterator iterable = None \<or> bad_chunkSize chunkSize \<longrightarrow>
        thrown g = chunkFromAsync_error iterable chunkSize \<and> trace g = []"
      using r by (auto simp: chunkFromAsync_def chunkFromAsync_error_def throw_def start_def)
    show ?thesis by (intro exI [of _ g] conjI r 1 2 3)
  qed
  show ?thesis
    by (intro conjI chunk_thrown [OF assms(1)] sync async bad bad_chunkSize_iff)
qed

text \<open>
  No view together with a negative size; an array with a string after a view, under a
  valid size through \<open>chunkFrom\<close> and under the size zero through \<open>chunkFromAsync\<close>.
\<close>

theorem argument_errors_witness:
  "(\<exists>ys. chunk Null (Number (Finite (- 1))) = Some (ys, Some (TypeError ''Expected data to be ArrayBufferView'')))
   \<and> (\<exists>g. chunkFrom (limited (2 ^ 32)) [[1, 2, 3]]
            (Array [DataView \<lparr>arrayBuffer = 0, byteOffset = 0, byteLength = 3\<rparr>, String ''x''])
            (Number (Finite 2)) = Some g
         \<and> thrown g = Some (TypeError ''Expected iterable chunks to be Uint8Array or ArrayBufferView''))
   \<and> (\<exists>g. chunkFromAsync (limited (2 ^ 32)) [[1, 2, 3]]
            (Array [DataView \<lparr>arrayBuffer = 0, byteOffset = 0, byteLength = 3\<rparr>, String ''x''])
            (Number (Finite 0)) = Some g
         \<and> thrown g = Some (TypeError ''Expected chunkSize to be a positive integer'') \<and> trace g = [])"
proof -
  let ?it = "Array [DataView \<lparr>arrayBuffer = 0, byteOffset = 0, byteLength = 3\<rparr>, String ''x'']"
  have views: "views_in_heap [[1, 2, 3]] (sync_items ?it)" "views_in_heap [[1, 2, 3]] (async_items ?it)"
    by (simp_all add: views_in_heap_def sync_items_def async_items_def awaited_items_def
        valid_view_def MAX_SAFE_INTEGER_def)
  have data: "isView Null \<longrightarrow> byteLength (toUint8Array Null) \<le> MAX_SAFE_INTEGER" by simp
  note a = argument_errors [OF data views, where mem = "limited (2 ^ 32)"]
  from a [of "Number (Finite (- 1))"]
  have 1: "\<exists>ys. chunk Null (Number (Finite (- 1))) = Some (ys, Some (TypeError ''Expected data to be ArrayBufferView''))"
    by (simp add: chunk_error_def)
  from a [of "Number (Finite 2)", THEN conjunct2, THEN conjunct1]
  have 2: "\<exists>g. chunkFrom (limited (2 ^ 32)) [[1, 2, 3]] ?it (Number (Finite 2)) = Some g
         \<and> thrown g = Some (TypeError ''Expected iterable chunks to be Uint8Array or ArrayBufferView'')"
    by (auto simp: chunkFrom_error_def sync_items_def bad_chunkSize_def limited_def)
  from a [of "Number (Finite 0)", THEN conjunct2, THEN conjunct2, THEN conjunct1]
  have 3: "\<exists>g. chunkFromAsync (limited (2 ^ 32)) [[1, 2, 3]] ?it (Number (Finite 0)) = Some g
         \<and> thrown g = Some (TypeError ''Expected chunkSize to be a positive integer'') \<and> trace g = []"
    by (auto simp: chunkFromAsync_error_def bad_chunkSize_def)
  show ?thesis using 1 2 3 by (intro conjI)
qed

end
